theory Spec2Isabelle
  imports Complex_Main "HOL-Library.AList" "HOL-Library.Multiset" "HOL-Library.Monad_Syntax"
begin

section \<open>Data model\<close>

text \<open>
  Python objects are referred to by reference: a node reference and a route reference
  are natural numbers, and a store maps each reference to the object's fields.  Two
  node references are equal exactly when they denote the same object.
\<close>

type_synonym nref = nat
type_synonym rref = nat

text \<open>
  Modelled from the spec: the class Node (kgls/datastructure/node.py is not part of
  the sources).  A node carries \<open>node_id\<close>, the planar coordinates, the demand and
  the depot flag, and the mutable links \<open>prev\<close>, \<open>next\<close> and \<open>route\<close>.  The field
  \<open>next\<close> is written \<open>nxt\<close>.
\<close>

record node =
  node_id :: nat
  x_coordinate :: real
  y_coordinate :: real
  demand :: int
  is_depot :: bool
  prev :: nref
  nxt :: nref
  route :: rref

text \<open>
  Modelled from the spec: the class Edge (kgls/datastructure/edge.py is not part of
  the sources): a pair of node references with a mutable \<open>value\<close>; equality and
  hash are those of the unordered pair, which is the key of \<open>_edge_penalties\<close>.
\<close>

record edge =
  first_node :: nref
  second_node :: nref
  edge_value :: real

definition edge_key :: "edge \<Rightarrow> nref set" where
  "edge_key e = {first_node e, second_node e}"

text \<open>
  Modelled from the spec: the class Route (kgls/datastructure/route.py is not part of
  the sources): its depot sentinel, its aggregate demand \<open>volume\<close>, and what its
  methods \<open>get_nodes()\<close> (the non-depot nodes of the route) and \<open>get_edges()\<close>
  (the consecutive pairs along the route's cycle, as fresh Edge objects) return.
\<close>

record route_obj =
  depot :: nref
  volume :: int
  get_nodes :: "nref list"
  get_edges :: "edge list"

record store =
  node_of :: "nref \<Rightarrow> node"
  route_of :: "rref \<Rightarrow> route_obj"

text \<open>
  Modelled from the spec: Node.get_neighbour; direction 0 follows \<open>next\<close>,
  direction 1 follows \<open>prev\<close>.
\<close>

definition get_neighbour :: "store \<Rightarrow> nref \<Rightarrow> int \<Rightarrow> nref" where
  "get_neighbour st n direction =
     (if direction = 0 then nxt (node_of st n) else prev (node_of st n))"

section \<open>Python numerics\<close>

text \<open>
  Floats are idealised as real numbers.  Python's \<open>round\<close> on a float rounds to the
  nearest integer and a tie to the even neighbour; \<open>int\<close> truncates towards zero.
\<close>

definition py_round :: "real \<Rightarrow> int" where
  "py_round x =
     (if x - of_int \<lfloor>x\<rfloor> < 1 / 2 then \<lfloor>x\<rfloor>
      else if x - of_int \<lfloor>x\<rfloor> > 1 / 2 then \<lfloor>x\<rfloor> + 1
      else if even \<lfloor>x\<rfloor> then \<lfloor>x\<rfloor> else \<lfloor>x\<rfloor> + 1)"

definition py_int :: "real \<Rightarrow> int" where
  "py_int x = (if 0 \<le> x then \<lfloor>x\<rfloor> else \<lceil>x\<rceil>)"

section \<open>The cost evaluator\<close>

datatype criterium = Width | Length | Width_length

text \<open>
  A Python dict that is iterated is an association list in insertion order
  (\<open>AList.update\<close> keeps the position of an existing key and appends a new one);
  a dict that is only read by key is a map.  \<open>_edge_penalties\<close> is a
  \<open>defaultdict(int)\<close>: a total function that is 0 where nothing was stored.
  \<open>_edge_ranking\<close> is \<open>None\<close> until the first ranking round.
  \<open>options_pos\<close> counts the calls of \<open>next\<close> on the cycle of criteria.
\<close>

type_synonym matrix = "(nat \<times> (nat \<times> int) list) list"

record cost_evaluator =
  nodes :: "nref list"
  penalization_enabled :: bool
  edge_penalties :: "nref set \<Rightarrow> int"
  baseline_cost :: int
  edge_ranking :: "edge list option"
  neighborhood_size :: nat
  capacity :: int
  costs :: matrix
  penalized_costs :: matrix
  neighborhood :: "(nref \<times> nref list) list"
  in_neighborhood_of :: "(nref \<times> nref list) list"
  nodes_to_update_for_relocation_chain :: "nref list"
  options_pos :: nat
  penalization_criterium :: criterium
  ejection_costs :: "nref \<rightharpoonup> int"
  insertion_costs :: "(nref \<times> nref) \<rightharpoonup> int"
  insertion_after :: "(nref \<times> nref) \<rightharpoonup> nref"

text \<open>\<open>m[i][j]\<close>; \<open>None\<close> is the KeyError of an unknown id.\<close>

definition lookup2 :: "matrix \<Rightarrow> nat \<Rightarrow> nat \<Rightarrow> int option" where
  "lookup2 m i j = (case map_of m i of None \<Rightarrow> None | Some row \<Rightarrow> map_of row j)"

definition get_distance :: "cost_evaluator \<Rightarrow> store \<Rightarrow> nref \<Rightarrow> nref \<Rightarrow> int option" where
  "get_distance ce st node1 node2 =
     (if \<not> penalization_enabled ce
      then lookup2 (costs ce) (node_id (node_of st node1)) (node_id (node_of st node2))
      else lookup2 (penalized_costs ce) (node_id (node_of st node1)) (node_id (node_of st node2)))"

definition is_feasible :: "cost_evaluator \<Rightarrow> int \<Rightarrow> bool" where
  "is_feasible ce load \<longleftrightarrow> load \<le> capacity ce"

definition update_ejection_costs :: "cost_evaluator \<Rightarrow> store \<Rightarrow> nref \<Rightarrow> cost_evaluator option" where
  "update_ejection_costs ce st n =
     do {
       a \<leftarrow> get_distance ce st n (prev (node_of st n));
       b \<leftarrow> get_distance ce st n (nxt (node_of st n));
       c \<leftarrow> get_distance ce st (prev (node_of st n)) (nxt (node_of st n));
       Some (ce\<lparr>ejection_costs := (ejection_costs ce)(n \<mapsto> a + b - c)\<rparr>)
     }"

definition update_insertion_costs ::
  "cost_evaluator \<Rightarrow> store \<Rightarrow> nref \<Rightarrow> nref \<Rightarrow> cost_evaluator option" where
  "update_insertion_costs ce st n insert_next_to_node =
     do {
       b1 \<leftarrow> get_distance ce st n (prev (node_of st insert_next_to_node));
       b2 \<leftarrow> get_distance ce st n insert_next_to_node;
       b3 \<leftarrow> get_distance ce st (prev (node_of st insert_next_to_node)) insert_next_to_node;
       a1 \<leftarrow> get_distance ce st n (nxt (node_of st insert_next_to_node));
       a2 \<leftarrow> get_distance ce st n insert_next_to_node;
       a3 \<leftarrow> get_distance ce st insert_next_to_node (nxt (node_of st insert_next_to_node));
       (let cost_insert_before = b1 + b2 - b3;
            cost_insert_after = a1 + a2 - a3
        in if cost_insert_before \<le> cost_insert_after
           then Some (ce\<lparr>insertion_costs :=
                            (insertion_costs ce)((n, insert_next_to_node) \<mapsto> cost_insert_before),
                          insertion_after :=
                            (insertion_after ce)((n, insert_next_to_node) \<mapsto>
                               prev (node_of st insert_next_to_node))\<rparr>)
           else Some (ce\<lparr>insertion_costs :=
                            (insertion_costs ce)((n, insert_next_to_node) \<mapsto> cost_insert_after),
                          insertion_after :=
                            (insertion_after ce)((n, insert_next_to_node) \<mapsto>
                               insert_next_to_node)\<rparr>))
     }"

section \<open>The heap of the standard library\<close>

text \<open>
  \<open>heapq\<close> of the Python standard library, after its reference implementation
  (Lib/heapq.py): a min-heap in a list, ordered by the elements' \<open>__lt__\<close>,
  which is the parameter \<open>lt\<close>.
\<close>

function siftdown_loop :: "('a \<Rightarrow> 'a \<Rightarrow> bool) \<Rightarrow> 'a \<Rightarrow> nat \<Rightarrow> 'a list \<Rightarrow> nat \<Rightarrow> 'a list" where
  "siftdown_loop lt newitem startpos heap pos =
     (if pos > startpos
      then (let parentpos = (pos - 1) div 2;
                parent = heap ! parentpos
            in if lt newitem parent
               then siftdown_loop lt newitem startpos (heap[pos := parent]) parentpos
               else heap[pos := newitem])
      else heap[pos := newitem])"
  by pat_completeness auto
termination
  by (relation "measure (\<lambda>(lt, newitem, startpos, heap, pos). pos)") auto

declare siftdown_loop.simps [simp del]

definition siftdown :: "('a \<Rightarrow> 'a \<Rightarrow> bool) \<Rightarrow> 'a list \<Rightarrow> nat \<Rightarrow> nat \<Rightarrow> 'a list" where
  "siftdown lt heap startpos pos = siftdown_loop lt (heap ! pos) startpos heap pos"

function siftup_loop :: "('a \<Rightarrow> 'a \<Rightarrow> bool) \<Rightarrow> nat \<Rightarrow> 'a list \<Rightarrow> nat \<Rightarrow> 'a list \<times> nat" where
  "siftup_loop lt endpos heap pos =
     (let childpos = 2 * pos + 1
      in if childpos < endpos
         then (let rightpos = childpos + 1;
                   childpos' = (if rightpos < endpos \<and> \<not> lt (heap ! childpos) (heap ! rightpos)
                                then rightpos else childpos)
               in siftup_loop lt endpos (heap[pos := heap ! childpos']) childpos')
         else (heap, pos))"
  by pat_completeness auto
termination
  by (relation "measure (\<lambda>(lt, endpos, heap, pos). endpos - pos)") auto

declare siftup_loop.simps [simp del]

definition siftup :: "('a \<Rightarrow> 'a \<Rightarrow> bool) \<Rightarrow> 'a list \<Rightarrow> nat \<Rightarrow> 'a list" where
  "siftup lt heap pos =
     (let newitem = heap ! pos;
          (heap', pos') = siftup_loop lt (length heap) heap pos
      in siftdown lt (heap'[pos' := newitem]) pos pos')"

definition heapify :: "('a \<Rightarrow> 'a \<Rightarrow> bool) \<Rightarrow> 'a list \<Rightarrow> 'a list" where
  "heapify lt x = foldl (siftup lt) x (rev [0 ..< length x div 2])"

text \<open>\<open>heappop\<close> on an empty list raises IndexError: \<open>None\<close>.\<close>

definition heappop :: "('a \<Rightarrow> 'a \<Rightarrow> bool) \<Rightarrow> 'a list \<Rightarrow> ('a \<times> 'a list) option" where
  "heappop lt heap =
     (if heap = [] then None
      else (let lastelt = last heap;
                heap' = butlast heap
            in if heap' \<noteq> []
               then Some (heap' ! 0, siftup lt (heap'[0 := lastelt]) 0)
               else Some (lastelt, heap')))"

definition heappush :: "('a \<Rightarrow> 'a \<Rightarrow> bool) \<Rightarrow> 'a list \<Rightarrow> 'a \<Rightarrow> 'a list" where
  "heappush lt heap item = siftdown lt (heap @ [item]) 0 (length heap)"

text \<open>
  Modelled from the spec: Edge.__lt__ (edge.py is not part of the sources).  The
  ranking is a max-priority queue keyed by \<open>value\<close> on top of the library's
  min-heap, so an edge is smaller when its value is larger, as CrossExchange.__lt__
  does for moves.
\<close>

definition edge_lt :: "edge \<Rightarrow> edge \<Rightarrow> bool" where
  "edge_lt a b \<longleftrightarrow> edge_value a > edge_value b"

subsection \<open>MaxHeapWithUpdate\<close>

definition MaxHeapWithUpdate :: "edge list \<Rightarrow> edge list" where
  "MaxHeapWithUpdate elements = heapify edge_lt elements"

definition get_max_element :: "edge list \<Rightarrow> (edge \<times> edge list) option" where
  "get_max_element heap = heappop edge_lt heap"

definition insert_element :: "edge list \<Rightarrow> edge \<Rightarrow> edge list" where
  "insert_element heap element = heappush edge_lt heap element"

section \<open>Construction of the cost evaluator\<close>

text \<open>A \<open>for\<close> loop whose body may raise.\<close>

fun for_each :: "('a \<Rightarrow> 's \<Rightarrow> 's option) \<Rightarrow> 'a list \<Rightarrow> 's \<Rightarrow> 's option" where
  "for_each body [] s = Some s"
| "for_each body (x # xs) s =
     (case body x s of None \<Rightarrow> None | Some s' \<Rightarrow> for_each body xs s')"

definition compute_euclidean_distance :: "store \<Rightarrow> nref \<Rightarrow> nref \<Rightarrow> int" where
  "compute_euclidean_distance st node1 node2 =
     py_round (sqrt ((x_coordinate (node_of st node1) - x_coordinate (node_of st node2))\<^sup>2
                   + (y_coordinate (node_of st node1) - y_coordinate (node_of st node2))\<^sup>2))"

definition init_costs :: "store \<Rightarrow> nref list \<Rightarrow> matrix" where
  "init_costs st ns =
     foldl (\<lambda>m node1.
              AList.update (node_id (node_of st node1))
                (foldl (\<lambda>row node2.
                          AList.update (node_id (node_of st node2))
                            (compute_euclidean_distance st node1 node2) row) [] ns) m) [] ns"

definition init_penalized_costs :: "matrix \<Rightarrow> store \<Rightarrow> nref list \<Rightarrow> matrix option" where
  "init_penalized_costs c st ns =
     for_each (\<lambda>node1 m.
        do {
          row \<leftarrow> for_each (\<lambda>node2 row.
                   do {
                     v \<leftarrow> lookup2 c (node_id (node_of st node1)) (node_id (node_of st node2));
                     Some (AList.update (node_id (node_of st node2)) v row)
                   }) ns [];
          Some (AList.update (node_id (node_of st node1)) row m)
        }) ns []"

text \<open>\<open>self.nodes[n]\<close> raises IndexError when the id is not an index of the list.\<close>

definition get_nearest_neighbors :: "cost_evaluator \<Rightarrow> store \<Rightarrow> nref \<Rightarrow> nref list option" where
  "get_nearest_neighbors ce st n =
     do {
       row \<leftarrow> map_of (costs ce) (node_id (node_of st n));
       cands \<leftarrow> those (map (\<lambda>(i, _). if i < length (nodes ce) then Some (nodes ce ! i) else None)
                             (sort_key snd row));
       Some (take (neighborhood_size ce)
               (filter (\<lambda>m. \<not> is_depot (node_of st m) \<and> m \<noteq> n) cands))
     }"

text \<open>
  The keys of \<open>neighborhood\<close> are pairwise different, so reading
  \<open>neighborhood[other]\<close> for each key \<open>other\<close> is reading the items.
\<close>

definition compute_neighborhood ::
  "cost_evaluator \<Rightarrow> store \<Rightarrow> nref list \<Rightarrow> ((nref \<times> nref list) list \<times> (nref \<times> nref list) list) option" where
  "compute_neighborhood ce st ns =
     do {
       nb \<leftarrow> for_each (\<lambda>n d.
                if is_depot (node_of st n) then Some d
                else do { nn \<leftarrow> get_nearest_neighbors ce st n; Some (AList.update n nn d) }) ns [];
       Some (nb,
             foldl (\<lambda>d n.
                      if is_depot (node_of st n) then d
                      else AList.update n (map fst (filter (\<lambda>(other, l). n \<in> set l) nb)) d) [] ns)
     }"

definition compute_baseline_cost :: "cost_evaluator \<Rightarrow> store \<Rightarrow> nref list \<Rightarrow> int option" where
  "compute_baseline_cost ce st ns =
     do {
       ds \<leftarrow> those (concat (map (\<lambda>n. case map_of (neighborhood ce) n of
                                          None \<Rightarrow> [None]
                                        | Some l \<Rightarrow> map (\<lambda>other. get_distance ce st n other) l)
                                (filter (\<lambda>n. \<not> is_depot (node_of st n)) ns)));
       (if neighborhood_size ce * length ns = 0 then None
        else Some (py_int (real_of_int (sum_list ds) / real (neighborhood_size ce * length ns))))
     }"

definition criterium_options :: "criterium list" where
  "criterium_options = [Width, Length, Width_length]"

text \<open>\<open>next\<close> on \<open>cycle(["width", "length", "width_length"])\<close> after \<open>pos\<close> earlier calls.\<close>

definition next_criterium :: "nat \<Rightarrow> criterium" where
  "next_criterium pos = criterium_options ! (pos mod 3)"

definition cost_evaluator_init :: "store \<Rightarrow> nref list \<Rightarrow> int \<Rightarrow> cost_evaluator option" where
  "cost_evaluator_init st ns cap =
     do {
       pc \<leftarrow> init_penalized_costs (init_costs st ns) st ns;
       let ce0 = \<lparr>nodes = ns, penalization_enabled = False, edge_penalties = (\<lambda>_. 0),
                  baseline_cost = 0, edge_ranking = None, neighborhood_size = 20,
                  capacity = cap, costs = init_costs st ns, penalized_costs = pc,
                  neighborhood = [], in_neighborhood_of = [],
                  nodes_to_update_for_relocation_chain = [], options_pos = 0,
                  penalization_criterium = Width, ejection_costs = Map.empty,
                  insertion_costs = Map.empty, insertion_after = Map.empty\<rparr>;
       (nb, inb) \<leftarrow> compute_neighborhood ce0 st ns;
       let ce1 = ce0\<lparr>neighborhood := nb, in_neighborhood_of := inb,
                     nodes_to_update_for_relocation_chain :=
                       filter (\<lambda>n. \<not> is_depot (node_of st n)) ns\<rparr>;
       b \<leftarrow> compute_baseline_cost ce1 st ns;
       Some (ce1\<lparr>baseline_cost := b, penalization_criterium := next_criterium 0,
                 options_pos := 1\<rparr>)
     }"

section \<open>Operations of the cost evaluator\<close>

definition update_relocation_costs :: "cost_evaluator \<Rightarrow> store \<Rightarrow> cost_evaluator option" where
  "update_relocation_costs ce st =
     do {
       ce' \<leftarrow> for_each (\<lambda>n ce1.
                 do {
                   ce2 \<leftarrow> update_ejection_costs ce1 st n;
                   l \<leftarrow> map_of (in_neighborhood_of ce2) n;
                   ce3 \<leftarrow> for_each (\<lambda>potential_neighbour c. update_insertion_costs c st n potential_neighbour) l ce2;
                   l' \<leftarrow> map_of (in_neighborhood_of ce3) n;
                   for_each (\<lambda>potential_neighbour c. update_insertion_costs c st potential_neighbour n) l' ce3
                 }) (nodes_to_update_for_relocation_chain ce) ce;
       Some (ce'\<lparr>nodes_to_update_for_relocation_chain := []\<rparr>)
     }"

definition enable_penalization :: "cost_evaluator \<Rightarrow> store \<Rightarrow> cost_evaluator" where
  "enable_penalization ce st =
     ce\<lparr>penalization_enabled := True,
        nodes_to_update_for_relocation_chain :=
          filter (\<lambda>n. \<not> is_depot (node_of st n)) (map fst (neighborhood ce))\<rparr>"

definition disable_penalization :: "cost_evaluator \<Rightarrow> store \<Rightarrow> cost_evaluator" where
  "disable_penalization ce st =
     ce\<lparr>penalization_enabled := False,
        nodes_to_update_for_relocation_chain :=
          filter (\<lambda>n. \<not> is_depot (node_of st n)) (map fst (neighborhood ce))\<rparr>"

definition penalize :: "cost_evaluator \<Rightarrow> edge \<Rightarrow> cost_evaluator" where
  "penalize ce e =
     ce\<lparr>edge_penalties := (edge_penalties ce)(edge_key e := edge_penalties ce (edge_key e) + 1)\<rparr>"

text \<open>\<open>m[i][j] = v\<close>: the row \<open>m[i]\<close> is read (KeyError when absent) and updated in place.\<close>

definition set2 :: "matrix \<Rightarrow> nat \<Rightarrow> nat \<Rightarrow> int \<Rightarrow> matrix option" where
  "set2 m i j v =
     (case map_of m i of None \<Rightarrow> None
      | Some row \<Rightarrow> Some (AList.update i (AList.update j v row) m))"

definition get_and_penalize_worst_edge ::
  "cost_evaluator \<Rightarrow> store \<Rightarrow> (edge \<times> cost_evaluator) option" where
  "get_and_penalize_worst_edge ce st =
     do {
       ranking \<leftarrow> edge_ranking ce;
       (worst_edge, ranking1) \<leftarrow> get_max_element ranking;
       let penalties = (edge_penalties ce)
                         (edge_key worst_edge := edge_penalties ce (edge_key worst_edge) + 1);
       let node1 = node_id (node_of st (first_node worst_edge));
       let node2 = node_id (node_of st (second_node worst_edge));
       c \<leftarrow> lookup2 (costs ce) node1 node2;
       let penalization_costs =
             py_round (real_of_int c
                       + 0.1 * real_of_int (baseline_cost ce)
                             * real_of_int (penalties (edge_key worst_edge)));
       pc1 \<leftarrow> set2 (penalized_costs ce) node1 node2 penalization_costs;
       pc2 \<leftarrow> set2 pc1 node2 node1 penalization_costs;
       (if 1 + penalties (edge_key worst_edge) = 0 then None
        else
          (let worst_edge' = worst_edge\<lparr>edge_value :=
                 real_of_int c / real_of_int (1 + penalties (edge_key worst_edge))\<rparr>;
               dirty1 = nodes_to_update_for_relocation_chain ce
                        @ (if \<not> is_depot (node_of st (first_node worst_edge'))
                           then [first_node worst_edge'] else []);
               dirty2 = dirty1
                        @ (if \<not> is_depot (node_of st (second_node worst_edge'))
                           then [second_node worst_edge'] else [])
           in Some (worst_edge',
                    ce\<lparr>edge_penalties := penalties, penalized_costs := pc2,
                       edge_ranking := Some (insert_element ranking1 worst_edge'),
                       nodes_to_update_for_relocation_chain := dirty2\<rparr>)))
     }"

subsection \<open>Edge badness\<close>

text \<open>\<open>_compute_route_center\<close>; the division raises ZeroDivisionError on an empty list.\<close>

definition compute_route_center :: "store \<Rightarrow> nref list \<Rightarrow> (real \<times> real) option" where
  "compute_route_center st ns =
     (if length ns = 0 then None
      else Some (sum_list (map (\<lambda>n. x_coordinate (node_of st n)) ns) / real (length ns),
                 sum_list (map (\<lambda>n. y_coordinate (node_of st n)) ns) / real (length ns)))"

definition compute_edge_width :: "store \<Rightarrow> edge \<Rightarrow> real \<Rightarrow> real \<Rightarrow> nref \<Rightarrow> real" where
  "compute_edge_width st e route_center_x route_center_y dep =
     (let node1 = node_of st (first_node e);
          node2 = node_of st (second_node e);
          d = node_of st dep;
          distance_depot_center =
            sqrt ((x_coordinate d - route_center_x)\<^sup>2 + (y_coordinate d - route_center_y)\<^sup>2);
          distance_node1 =
            (route_center_y - y_coordinate d) * x_coordinate node1
            - (route_center_x - x_coordinate d) * y_coordinate node1
            + (route_center_x * y_coordinate d) - (route_center_y * x_coordinate d);
          distance_node1 =
            (if distance_depot_center = 0 then 0 else distance_node1 / distance_depot_center);
          distance_node2 =
            (route_center_y - y_coordinate d) * x_coordinate node2
            - (route_center_x - x_coordinate d) * y_coordinate node2
            + (route_center_x * y_coordinate d) - (route_center_y * x_coordinate d);
          distance_node2 =
            (if distance_depot_center = 0 then 0 else distance_node2 / distance_depot_center)
      in \<bar>distance_node1 - distance_node2\<bar>)"

definition compute_edge_length_value :: "cost_evaluator \<Rightarrow> store \<Rightarrow> edge \<Rightarrow> real option" where
  "compute_edge_length_value ce st e =
     map_option real_of_int
       (lookup2 (costs ce) (node_id (node_of st (first_node e)))
                           (node_id (node_of st (second_node e))))"

text \<open>
  The centre is \<open>(None, None)\<close> under the criterion \<open>length\<close>; arithmetic on it
  would raise TypeError.
\<close>

definition compute_edge_width_value ::
  "store \<Rightarrow> edge \<Rightarrow> (real \<times> real) option \<Rightarrow> route_obj \<Rightarrow> real option" where
  "compute_edge_width_value st e center r =
     (case center of None \<Rightarrow> None
      | Some (center_x, center_y) \<Rightarrow> Some (compute_edge_width st e center_x center_y (depot r)))"

definition compute_edge_width_length_value ::
  "cost_evaluator \<Rightarrow> store \<Rightarrow> edge \<Rightarrow> (real \<times> real) option \<Rightarrow> route_obj \<Rightarrow> real option" where
  "compute_edge_width_length_value ce st e center r =
     do {
       width_value \<leftarrow> compute_edge_width_value st e center r;
       length_value \<leftarrow> compute_edge_length_value ce st e;
       Some (width_value + length_value)
     }"

definition compute_edge_value ::
  "cost_evaluator \<Rightarrow> store \<Rightarrow> criterium \<Rightarrow> edge \<Rightarrow> (real \<times> real) option \<Rightarrow> route_obj
     \<Rightarrow> real option" where
  "compute_edge_value ce st crit e center r =
     (case crit of
        Length \<Rightarrow> compute_edge_length_value ce st e
      | Width \<Rightarrow> compute_edge_width_value st e center r
      | Width_length \<Rightarrow> compute_edge_width_length_value ce st e center r)"

text \<open>The body of the loop over the edges of one route.\<close>

definition badness_of_edge ::
  "cost_evaluator \<Rightarrow> store \<Rightarrow> (real \<times> real) option \<Rightarrow> route_obj \<Rightarrow> edge \<Rightarrow> edge option" where
  "badness_of_edge ce st center r e =
     do {
       v \<leftarrow> compute_edge_value ce st (penalization_criterium ce) e center r;
       (if 1 + edge_penalties ce (edge_key e) = 0 then None
        else Some (e\<lparr>edge_value := v / real_of_int (1 + edge_penalties ce (edge_key e))\<rparr>))
     }"

definition determine_edge_badness ::
  "cost_evaluator \<Rightarrow> store \<Rightarrow> rref list \<Rightarrow> cost_evaluator option" where
  "determine_edge_badness ce st routes =
     do {
       edges_in_solution \<leftarrow>
         for_each (\<lambda>rt edges.
            do {
              center \<leftarrow> (if penalization_criterium ce \<in> {Width, Width_length}
                         then map_option Some
                                (compute_route_center st (get_nodes (route_of st rt)))
                         else Some None);
              for_each (\<lambda>e edges'.
                 do {
                   e' \<leftarrow> badness_of_edge ce st center (route_of st rt) e;
                   Some (edges' @ [e'])
                 }) (get_edges (route_of st rt)) edges
            }) routes [];
       Some (ce\<lparr>edge_ranking := Some (MaxHeapWithUpdate edges_in_solution),
                penalization_criterium := next_criterium (options_pos ce),
                options_pos := options_pos ce + 1\<rparr>)
     }"

subsection \<open>Runs of the evaluator\<close>

text \<open>
  The operations that change an evaluator, each called with the store as it is at the
  time of the call, and the evaluators that a sequence of calls reaches from the one
  that the constructor returns.
\<close>

datatype operation =
    Get_and_penalize_worst_edge
  | Penalize edge
  | Enable_penalization
  | Disable_penalization
  | Determine_edge_badness "rref list"
  | Update_relocation_costs

definition apply_operation :: "cost_evaluator \<Rightarrow> store \<Rightarrow> operation \<Rightarrow> cost_evaluator option" where
  "apply_operation ce st operation =
     (case operation of
        Get_and_penalize_worst_edge \<Rightarrow> map_option snd (get_and_penalize_worst_edge ce st)
      | Penalize e \<Rightarrow> Some (penalize ce e)
      | Enable_penalization \<Rightarrow> Some (enable_penalization ce st)
      | Disable_penalization \<Rightarrow> Some (disable_penalization ce st)
      | Determine_edge_badness routes \<Rightarrow> determine_edge_badness ce st routes
      | Update_relocation_costs \<Rightarrow> update_relocation_costs ce st)"

fun run :: "cost_evaluator \<Rightarrow> (store \<times> operation) list \<Rightarrow> cost_evaluator option" where
  "run ce [] = Some ce"
| "run ce ((st, operation) # calls) =
     (case apply_operation ce st operation of None \<Rightarrow> None | Some ce' \<Rightarrow> run ce' calls)"

section \<open>Invariants\<close>

text \<open>
  What every reachable evaluator satisfies: both matrices are symmetric, a penalized
  cost exists exactly where a cost exists and is not below it, and the baseline cost
  and the penalty counts are not negative.
\<close>

definition evaluator_invariant :: "cost_evaluator \<Rightarrow> bool" where
  "evaluator_invariant ce \<longleftrightarrow>
     (\<forall>i j. lookup2 (costs ce) i j = lookup2 (costs ce) j i)
     \<and> (\<forall>i j. lookup2 (penalized_costs ce) i j = lookup2 (penalized_costs ce) j i)
     \<and> (\<forall>i j. rel_option (\<le>) (lookup2 (costs ce) i j) (lookup2 (penalized_costs ce) i j))
     \<and> 0 \<le> baseline_cost ce
     \<and> (\<forall>k. 0 \<le> edge_penalties ce k)"

text \<open>The fields that no operation changes after construction, and the matrix of costs.\<close>

definition fixed_part ::
  "cost_evaluator \<Rightarrow> nref list \<times> matrix \<times> int \<times> (nref \<times> nref list) list \<times> (nref \<times> nref list) list" where
  "fixed_part ce = (nodes ce, costs ce, baseline_cost ce, neighborhood ce, in_neighborhood_of ce)"

subsection \<open>The heap invariant\<close>

text \<open>
  The elements are compared through a key: \<open>lt a b\<close> is \<open>k a < k b\<close>.  A list is a
  heap from position \<open>s\<close> on when no element whose parent sits at \<open>s\<close> or later is
  below its parent; a heap from 0 on is what \<open>heapq\<close> calls a heap.
\<close>

definition heap_from :: "('a \<Rightarrow> 'k::linorder) \<Rightarrow> nat \<Rightarrow> 'a list \<Rightarrow> bool" where
  "heap_from k s xs \<longleftrightarrow>
     (\<forall>j < length xs. 0 < j \<and> s \<le> (j - 1) div 2 \<longrightarrow> k (xs ! ((j - 1) div 2)) \<le> k (xs ! j))"

text \<open>The positions below position \<open>s\<close> in the tree, \<open>s\<close> itself included.\<close>

inductive below :: "nat \<Rightarrow> nat \<Rightarrow> bool" for s :: nat where
  below_self: "below s s"
| below_left: "below s q \<Longrightarrow> below s (2 * q + 1)"
| below_right: "below s q \<Longrightarrow> below s (2 * q + 2)"

text \<open>
  While an element is sifted, position \<open>pos\<close> is a hole: every pair of a parent and
  a child that does not touch the hole is in order, and the children of the hole are
  not below the parent of the hole.
\<close>

definition hole_inv :: "('a \<Rightarrow> 'k::linorder) \<Rightarrow> nat \<Rightarrow> 'a list \<Rightarrow> nat \<Rightarrow> bool" where
  "hole_inv k s xs pos \<longleftrightarrow>
     pos < length xs \<and> below s pos
     \<and> (\<forall>j < length xs. 0 < j \<and> s \<le> (j - 1) div 2 \<and> j \<noteq> pos \<and> (j - 1) div 2 \<noteq> pos
            \<longrightarrow> k (xs ! ((j - 1) div 2)) \<le> k (xs ! j))
     \<and> (s < pos \<longrightarrow> (\<forall>j < length xs. 0 < j \<and> (j - 1) div 2 = pos
            \<longrightarrow> k (xs ! ((pos - 1) div 2)) \<le> k (xs ! j)))"

text \<open>Popping \<open>n\<close> times, as a caller that empties the ranking does.\<close>

fun pop_n :: "nat \<Rightarrow> edge list \<Rightarrow> edge list option" where
  "pop_n 0 heap = Some []"
| "pop_n (Suc n) heap =
     (case get_max_element heap of
        None \<Rightarrow> None
      | Some (e, heap') \<Rightarrow> (case pop_n n heap' of None \<Rightarrow> None | Some es \<Rightarrow> Some (e # es)))"

subsection \<open>The badness criteria, as the specification words them\<close>

text \<open>The centroid of a route: the mean of the coordinates of its non-depot nodes.\<close>

definition spec_centroid :: "store \<Rightarrow> nref list \<Rightarrow> real \<times> real" where
  "spec_centroid st ns =
     (sum_list (map (\<lambda>n. x_coordinate (node_of st n)) ns) / real (length ns),
      sum_list (map (\<lambda>n. y_coordinate (node_of st n)) ns) / real (length ns))"

text \<open>
  The signed distance of the point \<open>P\<close> from the line through \<open>D\<close> and \<open>C\<close>: the
  cross product of \<open>P - D\<close> and \<open>C - D\<close>, divided by the distance from \<open>D\<close> to
  \<open>C\<close>, and 0 when that distance is zero.
\<close>

definition spec_signed_distance :: "real \<times> real \<Rightarrow> real \<times> real \<Rightarrow> real \<times> real \<Rightarrow> real" where
  "spec_signed_distance D C P =
     (if sqrt ((fst C - fst D)\<^sup>2 + (snd C - snd D)\<^sup>2) = 0 then 0
      else ((fst P - fst D) * (snd C - snd D) - (snd P - snd D) * (fst C - fst D))
           / sqrt ((fst C - fst D)\<^sup>2 + (snd C - snd D)\<^sup>2))"

definition position :: "store \<Rightarrow> nref \<Rightarrow> real \<times> real" where
  "position st n = (x_coordinate (node_of st n), y_coordinate (node_of st n))"

definition spec_width :: "store \<Rightarrow> route_obj \<Rightarrow> edge \<Rightarrow> real" where
  "spec_width st r e =
     \<bar>spec_signed_distance (position st (depot r)) (spec_centroid st (get_nodes r))
         (position st (first_node e))
      - spec_signed_distance (position st (depot r)) (spec_centroid st (get_nodes r))
         (position st (second_node e))\<bar>"

text \<open>\<open>spec_edge_score ce st crit r e score\<close>: the criterion gives the edge this score.\<close>

definition spec_edge_score ::
  "cost_evaluator \<Rightarrow> store \<Rightarrow> criterium \<Rightarrow> route_obj \<Rightarrow> edge \<Rightarrow> real \<Rightarrow> bool" where
  "spec_edge_score ce st crit r e score \<longleftrightarrow>
     (case crit of
        Length \<Rightarrow>
          (\<exists>c. lookup2 (costs ce) (node_id (node_of st (first_node e)))
                                   (node_id (node_of st (second_node e))) = Some c
               \<and> score = real_of_int c)
      | Width \<Rightarrow> score = spec_width st r e
      | Width_length \<Rightarrow>
          (\<exists>c. lookup2 (costs ce) (node_id (node_of st (first_node e)))
                                   (node_id (node_of st (second_node e))) = Some c
               \<and> score = spec_width st r e + real_of_int c))"

definition receives_badness :: "cost_evaluator \<Rightarrow> store \<Rightarrow> route_obj \<Rightarrow> edge \<Rightarrow> edge \<Rightarrow> bool" where
  "receives_badness ce st r e e' \<longleftrightarrow>
     (\<exists>score. spec_edge_score ce st (penalization_criterium ce) r e score
        \<and> e' = e\<lparr>edge_value := score / real_of_int (1 + edge_penalties ce (edge_key e))\<rparr>)"

section \<open>The cross-exchange operator\<close>

record cross_exchange =
  segment1 :: "nref list"
  segment2 :: "nref list"
  segment1_insert_after :: nref
  segment2_insert_after :: nref
  improvement :: int
  start_node :: nref

text \<open>
  The inner \<open>while\<close> loop of \<open>search_cross_exchanges_from\<close>: segment 2 grows from
  \<open>segment2_start\<close> while its end is no depot and route 1 stays feasible.  The loop
  returns the list of candidate moves; \<open>None\<close> is a KeyError of the distance oracle
  or a walk that never ends.
\<close>

partial_function (option) segment2_loop ::
  "cost_evaluator \<Rightarrow> store \<Rightarrow> nref \<Rightarrow> int \<Rightarrow> int \<Rightarrow> nref \<Rightarrow> nref \<Rightarrow> int
     \<Rightarrow> nref \<Rightarrow> nref list \<Rightarrow> int
     \<Rightarrow> nref \<Rightarrow> nref list \<Rightarrow> int \<Rightarrow> cross_exchange list \<Rightarrow> cross_exchange list option" where
  "segment2_loop ce st start segment1_direction segment2_direction
       route1_segment_connection_start route2_segment_connection_start improvement_first_cross
       segment1_end segment1_list segment1_volume
       segment2_end segment2_list segment2_volume candidate_moves =
     (if \<not> is_depot (node_of st segment2_end)
         \<and> is_feasible ce (volume (route_of st (route (node_of st start)))
                            - segment1_volume + segment2_volume)
      then
        do {
          candidate_moves' \<leftarrow>
            (if is_feasible ce
                  (volume (route_of st (route (node_of st route2_segment_connection_start)))
                   - segment2_volume + segment1_volume)
             then
               do {
                 a \<leftarrow> get_distance ce st segment1_end
                        (get_neighbour st segment1_end segment1_direction);
                 b \<leftarrow> get_distance ce st segment2_end
                        (get_neighbour st segment2_end segment2_direction);
                 c \<leftarrow> get_distance ce st segment1_end
                        (get_neighbour st segment2_end segment2_direction);
                 d \<leftarrow> get_distance ce st segment2_end
                        (get_neighbour st segment1_end segment1_direction);
                 (if improvement_first_cross + (a + b - c - d) > 0
                  then Some (candidate_moves @
                         [\<lparr>segment1 = segment1_list,
                           segment2 = segment2_list,
                           segment1_insert_after =
                             (if segment2_direction = 1 then route2_segment_connection_start
                              else get_neighbour st segment2_end segment2_direction),
                           segment2_insert_after =
                             (if segment1_direction = 1 then route1_segment_connection_start
                              else get_neighbour st segment1_end segment1_direction),
                           improvement = improvement_first_cross + (a + b - c - d),
                           start_node = start\<rparr>])
                  else Some candidate_moves)
               }
             else Some candidate_moves);
          segment2_loop ce st start segment1_direction segment2_direction
            route1_segment_connection_start route2_segment_connection_start
            improvement_first_cross segment1_end segment1_list segment1_volume
            (get_neighbour st segment2_end segment2_direction)
            (if (segment2_direction = 1 \<and> segment1_direction = 0)
                \<or> (segment1_direction + segment2_direction = 0)
             then get_neighbour st segment2_end segment2_direction # segment2_list
             else segment2_list @ [get_neighbour st segment2_end segment2_direction])
            (segment2_volume
             + demand (node_of st (get_neighbour st segment2_end segment2_direction)))
            candidate_moves'
        }
      else Some candidate_moves)"

declare segment2_loop.simps [code]

text \<open>The outer \<open>while\<close> loop: segment 1 grows from the seed until its end is a depot.\<close>

partial_function (option) segment1_loop ::
  "cost_evaluator \<Rightarrow> store \<Rightarrow> nref \<Rightarrow> int \<Rightarrow> int \<Rightarrow> nref \<Rightarrow> nref \<Rightarrow> int \<Rightarrow> nref
     \<Rightarrow> nref \<Rightarrow> nref list \<Rightarrow> int \<Rightarrow> cross_exchange list \<Rightarrow> cross_exchange list option" where
  "segment1_loop ce st start segment1_direction segment2_direction
       route1_segment_connection_start route2_segment_connection_start improvement_first_cross
       segment2_start segment1_end segment1_list segment1_volume candidate_moves =
     (if \<not> is_depot (node_of st segment1_end)
      then
        do {
          candidate_moves' \<leftarrow>
            segment2_loop ce st start segment1_direction segment2_direction
              route1_segment_connection_start route2_segment_connection_start
              improvement_first_cross segment1_end segment1_list segment1_volume
              segment2_start [segment2_start] (demand (node_of st segment2_start))
              candidate_moves;
          segment1_loop ce st start segment1_direction segment2_direction
            route1_segment_connection_start route2_segment_connection_start
            improvement_first_cross segment2_start
            (get_neighbour st segment1_end segment1_direction)
            (if (segment1_direction = 1 \<and> segment2_direction = 0)
                \<or> (segment1_direction + segment2_direction = 0)
             then get_neighbour st segment1_end segment1_direction # segment1_list
             else segment1_list @ [get_neighbour st segment1_end segment1_direction])
            (segment1_volume
             + demand (node_of st (get_neighbour st segment1_end segment1_direction)))
            candidate_moves'
        }
      else Some candidate_moves)"

declare segment1_loop.simps [code]

text \<open>The body of the loop over the neighborhood of the seed.\<close>

definition search_from_neighbour ::
  "cost_evaluator \<Rightarrow> store \<Rightarrow> nref \<Rightarrow> int \<Rightarrow> int \<Rightarrow> nref \<Rightarrow> nref
     \<Rightarrow> cross_exchange list \<Rightarrow> cross_exchange list option" where
  "search_from_neighbour ce st start segment1_direction segment2_direction
       route1_segment_connection_start route2_segment_connection_start candidate_moves =
     (if route (node_of st route2_segment_connection_start) \<noteq> route (node_of st start)
      then
        (let segment2_start = get_neighbour st route2_segment_connection_start segment2_direction
         in if is_depot (node_of st segment2_start) then Some candidate_moves
            else
              do {
                a \<leftarrow> get_distance ce st start route1_segment_connection_start;
                b \<leftarrow> get_distance ce st segment2_start route2_segment_connection_start;
                c \<leftarrow> get_distance ce st start route2_segment_connection_start;
                d \<leftarrow> get_distance ce st segment2_start route1_segment_connection_start;
                (if a + b - c - d > 0
                 then segment1_loop ce st start segment1_direction segment2_direction
                        route1_segment_connection_start route2_segment_connection_start
                        (a + b - c - d) segment2_start
                        start [start] (demand (node_of st start)) candidate_moves
                 else Some candidate_moves)
              })
      else Some candidate_moves)"

text \<open>\<open>get_neighborhood\<close> raises KeyError for a node without a neighborhood (a depot).\<close>

definition get_neighborhood :: "cost_evaluator \<Rightarrow> nref \<Rightarrow> nref list option" where
  "get_neighborhood ce n = map_of (neighborhood ce) n"

definition search_cross_exchanges_from ::
  "cost_evaluator \<Rightarrow> store \<Rightarrow> nref \<Rightarrow> int list \<Rightarrow> int list \<Rightarrow> cross_exchange list option" where
  "search_cross_exchanges_from ce st start segment1_directions segment2_directions =
     for_each (\<lambda>segment1_direction candidate_moves.
       for_each (\<lambda>segment2_direction candidate_moves.
         do {
           let route1_segment_connection_start =
                 (if segment1_direction = 1 then prev (node_of st start)
                  else nxt (node_of st start));
           neighbours \<leftarrow> get_neighborhood ce start;
           for_each (\<lambda>route2_segment_connection_start candidate_moves.
               search_from_neighbour ce st start segment1_direction segment2_direction
                 route1_segment_connection_start route2_segment_connection_start
                 candidate_moves)
             neighbours candidate_moves
         }) segment2_directions candidate_moves) segment1_directions []"

text \<open>
  \<open>sorted\<close> is stable and compares with CrossExchange.__lt__, under which a move is
  smaller when its improvement is larger.
\<close>

definition search_cross_exchanges ::
  "cost_evaluator \<Rightarrow> store \<Rightarrow> nref list \<Rightarrow> cross_exchange list option" where
  "search_cross_exchanges ce st start_nodes =
     do {
       candidate_moves \<leftarrow>
         for_each (\<lambda>start candidate_moves.
            do {
              moves \<leftarrow> search_cross_exchanges_from ce st start [0, 1] [0, 1];
              Some (candidate_moves @ moves)
            }) start_nodes [];
       Some (sort_key (\<lambda>move. - improvement move) candidate_moves)
     }"

subsection \<open>What an emitted move is\<close>

text \<open>The nodes met from \<open>n\<close> in \<open>k\<close> steps of direction \<open>d\<close>, \<open>n\<close> first.\<close>

fun walk :: "store \<Rightarrow> int \<Rightarrow> nref \<Rightarrow> nat \<Rightarrow> nref list" where
  "walk st d n 0 = [n]"
| "walk st d n (Suc k) = n # walk st d (get_neighbour st n d) k"

definition total_demand :: "store \<Rightarrow> nref list \<Rightarrow> int" where
  "total_demand st ns = sum_list (map (\<lambda>n. demand (node_of st n)) ns)"

text \<open>
  The gain of a cross: the edges \<open>(a, a')\<close> and \<open>(b, b')\<close> are replaced by
  \<open>(a, b')\<close> and \<open>(b, a')\<close>.
\<close>

definition cross_improvement ::
  "cost_evaluator \<Rightarrow> store \<Rightarrow> nref \<Rightarrow> nref \<Rightarrow> nref \<Rightarrow> nref \<Rightarrow> int option" where
  "cross_improvement ce st a a' b b' =
     do {
       w \<leftarrow> get_distance ce st a a';
       x \<leftarrow> get_distance ce st b b';
       y \<leftarrow> get_distance ce st a b';
       z \<leftarrow> get_distance ce st b a';
       Some (w + x - y - z)
     }"

text \<open>Whether an extension is put in front of the list of segment 1, of segment 2.\<close>

definition prepend1 :: "int \<Rightarrow> int \<Rightarrow> bool" where
  "prepend1 d1 d2 \<longleftrightarrow> (d1 = 1 \<and> d2 = 0) \<or> (d1 + d2 = 0)"

definition prepend2 :: "int \<Rightarrow> int \<Rightarrow> bool" where
  "prepend2 d1 d2 \<longleftrightarrow> (d2 = 1 \<and> d1 = 0) \<or> (d1 + d2 = 0)"

text \<open>
  A segment list that has grown from \<open>origin\<close> to \<open>end\<close> in direction \<open>d\<close>: read in
  the order of growth it is a walk whose nodes before the end are no depots, and
  \<open>vol\<close> is the sum of its demands.
\<close>

definition seg_inv :: "store \<Rightarrow> bool \<Rightarrow> int \<Rightarrow> nref \<Rightarrow> nref list \<Rightarrow> nref \<Rightarrow> int \<Rightarrow> bool" where
  "seg_inv st p d origin l e vol \<longleftrightarrow>
     (\<exists>k. (if p then rev l else l) = walk st d origin k
          \<and> last (walk st d origin k) = e
          \<and> (\<forall>n \<in> set (butlast (walk st d origin k)). \<not> is_depot (node_of st n)))
     \<and> vol = total_demand st l"

text \<open>
  \<open>emitted ce st s d1 d2 c2 m\<close>: the move \<open>m\<close> is what the search emits for the seed
  \<open>s\<close>, the directions \<open>d1\<close> and \<open>d2\<close> and the neighbour \<open>c2\<close> of the seed, with
  segment 1 grown from the seed to \<open>e1\<close> and segment 2 grown from the neighbour of
  \<open>c2\<close> to \<open>e2\<close>.
\<close>

definition emitted ::
  "cost_evaluator \<Rightarrow> store \<Rightarrow> nref \<Rightarrow> int \<Rightarrow> int \<Rightarrow> nref \<Rightarrow> cross_exchange \<Rightarrow> bool" where
  "emitted ce st s d1 d2 c2 m \<longleftrightarrow>
     (\<exists>e1 e2 delta1 delta2.
        start_node m = s
        \<and> route (node_of st c2) \<noteq> route (node_of st s)
        \<and> seg_inv st (prepend1 d1 d2) d1 s (segment1 m) e1 (total_demand st (segment1 m))
        \<and> \<not> is_depot (node_of st e1)
        \<and> seg_inv st (prepend2 d1 d2) d2 (get_neighbour st c2 d2) (segment2 m) e2
             (total_demand st (segment2 m))
        \<and> \<not> is_depot (node_of st e2)
        \<and> is_feasible ce (volume (route_of st (route (node_of st s)))
                           - total_demand st (segment1 m) + total_demand st (segment2 m))
        \<and> is_feasible ce (volume (route_of st (route (node_of st c2)))
                           - total_demand st (segment2 m) + total_demand st (segment1 m))
        \<and> cross_improvement ce st s
             (if d1 = 1 then prev (node_of st s) else nxt (node_of st s))
             (get_neighbour st c2 d2) c2 = Some delta1
        \<and> cross_improvement ce st e1 (get_neighbour st e1 d1) e2 (get_neighbour st e2 d2)
             = Some delta2
        \<and> 0 < delta1
        \<and> improvement m = delta1 + delta2
        \<and> 0 < improvement m
        \<and> segment1_insert_after m = (if d2 = 1 then c2 else get_neighbour st e2 d2)
        \<and> segment2_insert_after m
             = (if d1 = 1 then (if d1 = 1 then prev (node_of st s) else nxt (node_of st s))
                else get_neighbour st e1 d1))"

text \<open>
  The links respect the routes: the two neighbours of a node are in the node's route.
\<close>

definition links_in_route :: "store \<Rightarrow> bool" where
  "links_in_route st \<longleftrightarrow>
     (\<forall>n. route (node_of st (nxt (node_of st n))) = route (node_of st n)
          \<and> route (node_of st (prev (node_of st n))) = route (node_of st n))"

text \<open>
  What the loops promise for their result \<open>res\<close>: a move of \<open>res\<close> was a candidate
  before the loop or is an emitted one.
\<close>

definition segment2_loop_post ::
  "cost_evaluator \<Rightarrow> store \<Rightarrow> nref \<Rightarrow> int \<Rightarrow> int \<Rightarrow> nref \<Rightarrow> nref \<Rightarrow> int
     \<Rightarrow> nref \<Rightarrow> nref list \<Rightarrow> int
     \<Rightarrow> nref \<Rightarrow> nref list \<Rightarrow> int \<Rightarrow> cross_exchange list \<Rightarrow> cross_exchange list \<Rightarrow> bool" where
  "segment2_loop_post ce st s d1 d2 c1 c2 first e1 l1 v1 e2 l2 v2 cm res \<longleftrightarrow>
     (seg_inv st (prepend2 d1 d2) d2 (get_neighbour st c2 d2) l2 e2 v2 \<longrightarrow>
      seg_inv st (prepend1 d1 d2) d1 s l1 e1 v1 \<longrightarrow>
      \<not> is_depot (node_of st e1) \<longrightarrow>
      route (node_of st c2) \<noteq> route (node_of st s) \<longrightarrow>
      c1 = (if d1 = 1 then prev (node_of st s) else nxt (node_of st s)) \<longrightarrow>
      cross_improvement ce st s c1 (get_neighbour st c2 d2) c2 = Some first \<longrightarrow>
      0 < first \<longrightarrow>
      (\<forall>m \<in> set res. m \<in> set cm \<or> emitted ce st s d1 d2 c2 m))"

definition segment1_loop_post ::
  "cost_evaluator \<Rightarrow> store \<Rightarrow> nref \<Rightarrow> int \<Rightarrow> int \<Rightarrow> nref \<Rightarrow> nref \<Rightarrow> int \<Rightarrow> nref
     \<Rightarrow> nref \<Rightarrow> nref list \<Rightarrow> int \<Rightarrow> cross_exchange list \<Rightarrow> cross_exchange list \<Rightarrow> bool" where
  "segment1_loop_post ce st s d1 d2 c1 c2 first s2 e1 l1 v1 cm res \<longleftrightarrow>
     (seg_inv st (prepend1 d1 d2) d1 s l1 e1 v1 \<longrightarrow>
      s2 = get_neighbour st c2 d2 \<longrightarrow>
      route (node_of st c2) \<noteq> route (node_of st s) \<longrightarrow>
      c1 = (if d1 = 1 then prev (node_of st s) else nxt (node_of st s)) \<longrightarrow>
      cross_improvement ce st s c1 (get_neighbour st c2 d2) c2 = Some first \<longrightarrow>
      0 < first \<longrightarrow>
      (\<forall>m \<in> set res. m \<in> set cm \<or> emitted ce st s d1 d2 c2 m))"

subsection \<open>When the search returns\<close>

text \<open>
  \<open>search_ready ce st ns\<close>: the nodes \<open>ns\<close> of the solution are closed under
  \<open>next\<close> and \<open>prev\<close>, from each of them a depot is met in both directions within
  \<open>length ns\<close> steps, the distance of every two of them is known, and every non-depot
  node has a neighborhood inside \<open>ns\<close>.
\<close>

definition search_ready :: "cost_evaluator \<Rightarrow> store \<Rightarrow> nref list \<Rightarrow> bool" where
  "search_ready ce st ns \<longleftrightarrow>
     (\<forall>n \<in> set ns.
        nxt (node_of st n) \<in> set ns \<and> prev (node_of st n) \<in> set ns
        \<and> (\<exists>k \<in> set [0..<Suc (length ns)]. is_depot (node_of st (last (walk st 0 n k))))
        \<and> (\<exists>k \<in> set [0..<Suc (length ns)]. is_depot (node_of st (last (walk st 1 n k))))
        \<and> (is_depot (node_of st n)
             \<or> (case get_neighborhood ce n of None \<Rightarrow> False
                 | Some neighbours \<Rightarrow> set neighbours \<subseteq> set ns))
        \<and> (\<forall>m \<in> set ns. get_distance ce st n m \<noteq> None))"

section \<open>Scenarios\<close>

text \<open>
  Scenario S2: the route depot(0,0) \<rightarrow> n1(1,0) \<rightarrow> n2(2,0) \<rightarrow> depot.  The references
  0, 1 and 2 are the depot, n1 and n2; \<open>S2_ce\<close> is the evaluator that the
  constructor builds for them.
\<close>

definition S2_node :: "nref \<Rightarrow> node" where
  "S2_node r =
     (if r = 0
      then \<lparr>node_id = 0, x_coordinate = 0, y_coordinate = 0, demand = 0, is_depot = True,
             prev = 2, nxt = 1, route = 0\<rparr>
      else if r = 1
      then \<lparr>node_id = 1, x_coordinate = 1, y_coordinate = 0, demand = 1, is_depot = False,
             prev = 0, nxt = 2, route = 0\<rparr>
      else \<lparr>node_id = 2, x_coordinate = 2, y_coordinate = 0, demand = 1, is_depot = False,
             prev = 1, nxt = 0, route = 0\<rparr>)"

definition S2_store :: store where
  "S2_store = \<lparr>node_of = S2_node, route_of = (\<lambda>_. \<lparr>depot = 0, volume = 2, get_nodes = [1, 2], get_edges = []\<rparr>)\<rparr>"

definition S2_costs :: matrix where
  "S2_costs = [(0, [(0, 0), (1, 1), (2, 2)]),
               (1, [(0, 1), (1, 0), (2, 1)]),
               (2, [(0, 2), (1, 1), (2, 0)])]"

definition S2_ce :: cost_evaluator where
  "S2_ce = \<lparr>nodes = [0, 1, 2], penalization_enabled = False, edge_penalties = (\<lambda>_. 0),
            baseline_cost = 0, edge_ranking = None, neighborhood_size = 20,
            capacity = 10, costs = S2_costs, penalized_costs = S2_costs,
            neighborhood = [(1, [2]), (2, [1])], in_neighborhood_of = [(1, [2]), (2, [1])],
            nodes_to_update_for_relocation_chain = [1, 2], options_pos = 1,
            penalization_criterium = Width, ejection_costs = Map.empty,
            insertion_costs = Map.empty, insertion_after = Map.empty\<rparr>"




text \<open>
  Scenario T: one route depot(0,0) \<rightarrow> n1(600,0) \<rightarrow> n2(0,800) \<rightarrow> depot, the references
  0, 1 and 2.  The distances are 600, 1000 and 800 and the centroid of the route is
  (300,400), at distance 500 from the depot.  \<open>T_ce\<close> is the evaluator that the
  constructor builds, \<open>T_ce1\<close> the one after a ranking round, \<open>T_ce2\<close> the one
  after penalizing the worst edge.
\<close>

definition T_node :: "nref \<Rightarrow> node" where
  "T_node r =
     (if r = 0
      then \<lparr>node_id = 0, x_coordinate = 0, y_coordinate = 0, demand = 0, is_depot = True,
             prev = 2, nxt = 1, route = 0\<rparr>
      else if r = 1
      then \<lparr>node_id = 1, x_coordinate = 600, y_coordinate = 0, demand = 4, is_depot = False,
             prev = 0, nxt = 2, route = 0\<rparr>
      else \<lparr>node_id = 2, x_coordinate = 0, y_coordinate = 800, demand = 3, is_depot = False,
             prev = 1, nxt = 0, route = 0\<rparr>)"

definition T_edges :: "edge list" where
  "T_edges = [\<lparr>first_node = 0, second_node = 1, edge_value = 0\<rparr>,
              \<lparr>first_node = 1, second_node = 2, edge_value = 0\<rparr>,
              \<lparr>first_node = 2, second_node = 0, edge_value = 0\<rparr>]"

definition T_store :: store where
  "T_store = \<lparr>node_of = T_node,
              route_of = (\<lambda>_. \<lparr>depot = 0, volume = 7, get_nodes = [1, 2],
                                get_edges = T_edges\<rparr>)\<rparr>"

definition T_costs :: matrix where
  "T_costs = [(0, [(0, 0), (1, 600), (2, 800)]),
              (1, [(0, 600), (1, 0), (2, 1000)]),
              (2, [(0, 800), (1, 1000), (2, 0)])]"

definition T_ce :: cost_evaluator where
  "T_ce = \<lparr>nodes = [0, 1, 2], penalization_enabled = False, edge_penalties = (\<lambda>_. 0),
           baseline_cost = 33, edge_ranking = None, neighborhood_size = 20,
           capacity = 10, costs = T_costs, penalized_costs = T_costs,
           neighborhood = [(1, [2]), (2, [1])], in_neighborhood_of = [(1, [2]), (2, [1])],
           nodes_to_update_for_relocation_chain = [1, 2], options_pos = 1,
           penalization_criterium = Width, ejection_costs = Map.empty,
           insertion_costs = Map.empty, insertion_after = Map.empty\<rparr>"

definition T_ranking :: "edge list" where
  "T_ranking = [\<lparr>first_node = 1, second_node = 2, edge_value = 960\<rparr>,
                \<lparr>first_node = 0, second_node = 1, edge_value = 480\<rparr>,
                \<lparr>first_node = 2, second_node = 0, edge_value = 480\<rparr>]"

definition T_ce1 :: cost_evaluator where
  "T_ce1 = T_ce\<lparr>edge_ranking := Some T_ranking, penalization_criterium := Length,
                options_pos := 2\<rparr>"

definition T_ce2 :: cost_evaluator where
  "T_ce2 = T_ce1\<lparr>edge_penalties := (\<lambda>_. 0)({1, 2} := 1),
                 penalized_costs := [(0, [(0, 0), (1, 600), (2, 800)]),
                                     (1, [(0, 600), (1, 0), (2, 1003)]),
                                     (2, [(0, 800), (1, 1003), (2, 0)])],
                 edge_ranking := Some [\<lparr>first_node = 1, second_node = 2, edge_value = 500\<rparr>,
                                       \<lparr>first_node = 2, second_node = 0, edge_value = 480\<rparr>,
                                       \<lparr>first_node = 0, second_node = 1, edge_value = 480\<rparr>],
                 nodes_to_update_for_relocation_chain := [1, 2, 1, 2]\<rparr>"

text \<open>
  Scenario X (after S5): capacity 10; route 0 is depot \<rightarrow> a \<rightarrow> b \<rightarrow> depot with demands 4
  and 4 (volume 8), route 1 is depot \<rightarrow> x \<rightarrow> y \<rightarrow> depot with demands 3 and 3
  (volume 6).  The references 0, 1, 2 are the depot of route 0, a and b; 3, 4, 5 are the
  depot of route 1, x and y.  The depot is at (0,0), a at (10,0), b at (5,-5), x at
  (0,3) and y at (10,2); the ids are 0 for the depot and 1, 2, 3, 4 for a, b, x, y, and
  the matrix holds the rounded Euclidean distances.
\<close>

definition X_node :: "nref \<Rightarrow> node" where
  "X_node r =
     (if r = 0
      then \<lparr>node_id = 0, x_coordinate = 0, y_coordinate = 0, demand = 0, is_depot = True,
             prev = 2, nxt = 1, route = 0\<rparr>
      else if r = 1
      then \<lparr>node_id = 1, x_coordinate = 10, y_coordinate = 0, demand = 4, is_depot = False,
             prev = 0, nxt = 2, route = 0\<rparr>
      else if r = 2
      then \<lparr>node_id = 2, x_coordinate = 5, y_coordinate = - 5, demand = 4, is_depot = False,
             prev = 1, nxt = 0, route = 0\<rparr>
      else if r = 3
      then \<lparr>node_id = 0, x_coordinate = 0, y_coordinate = 0, demand = 0, is_depot = True,
             prev = 5, nxt = 4, route = 1\<rparr>
      else if r = 4
      then \<lparr>node_id = 3, x_coordinate = 0, y_coordinate = 3, demand = 3, is_depot = False,
             prev = 3, nxt = 5, route = 1\<rparr>
      else \<lparr>node_id = 4, x_coordinate = 10, y_coordinate = 2, demand = 3, is_depot = False,
             prev = 4, nxt = 3, route = 1\<rparr>)"

definition X_route :: "rref \<Rightarrow> route_obj" where
  "X_route r =
     (if r = 0 then \<lparr>depot = 0, volume = 8, get_nodes = [1, 2], get_edges = []\<rparr>
      else \<lparr>depot = 3, volume = 6, get_nodes = [4, 5], get_edges = []\<rparr>)"

definition X_store :: store where
  "X_store = \<lparr>node_of = X_node, route_of = X_route\<rparr>"

definition X_costs :: matrix where
  "X_costs = [(0, [(0, 0), (1, 10), (2, 7), (3, 3), (4, 10)]),
              (1, [(0, 10), (1, 0), (2, 7), (3, 10), (4, 2)]),
              (2, [(0, 7), (1, 7), (2, 0), (3, 9), (4, 9)]),
              (3, [(0, 3), (1, 10), (2, 9), (3, 0), (4, 10)]),
              (4, [(0, 10), (1, 2), (2, 9), (3, 10), (4, 0)])]"

definition X_ce :: cost_evaluator where
  "X_ce = \<lparr>nodes = [0, 1, 2, 4, 5], penalization_enabled = False, edge_penalties = (\<lambda>_. 0),
           baseline_cost = 0, edge_ranking = None, neighborhood_size = 20,
           capacity = 10, costs = X_costs, penalized_costs = X_costs,
           neighborhood = [(1, [5, 2, 4]), (2, [1, 4, 5]), (4, [2, 1, 5]), (5, [1, 2, 4])],
           in_neighborhood_of = [(1, [2, 4, 5]), (2, [1, 4, 5]), (4, [1, 2, 5]), (5, [1, 2, 4])],
           nodes_to_update_for_relocation_chain = [1, 2, 4, 5], options_pos = 1,
           penalization_criterium = Width, ejection_costs = Map.empty,
           insertion_costs = Map.empty, insertion_after = Map.empty\<rparr>"

section \<open>Auxiliary facts\<close>

subsection \<open>Numerics\<close>

lemma py_round_of_int [simp]: "py_round (of_int k) = k"
  by (simp add: py_round_def)

lemma py_round_numeral [simp]:
  "py_round (numeral k) = numeral k" "py_round 0 = 0" "py_round 1 = 1"
  using py_round_of_int[of "numeral k"] py_round_of_int[of 0] py_round_of_int[of 1] by simp_all

subsection \<open>Matrices\<close>

lemma lookup2_set2:
  "set2 m i j v = Some m' \<Longrightarrow>
     lookup2 m' a b = (if a = i \<and> b = j then Some v else lookup2 m a b)"
  by (auto simp: set2_def lookup2_def update_conv' split: option.splits if_splits)

subsection \<open>The heap keeps its elements\<close>

lemma mset_siftdown_loop:
  "pos < length heap \<Longrightarrow>
     mset (siftdown_loop lt newitem startpos heap pos) = mset (heap[pos := newitem])"
proof (induction lt newitem startpos heap pos rule: siftdown_loop.induct)
  case (1 lt newitem startpos heap pos)
  show ?case
  proof (cases "pos > startpos \<and> lt newitem (heap ! ((pos - 1) div 2))")
    case True
    let ?pp = "(pos - 1) div 2"
    from True have pp: "?pp < pos" by auto
    with "1.prems" have ppl: "?pp < length heap" by simp
    have "mset (siftdown_loop lt newitem startpos (heap[pos := heap ! ?pp]) ?pp)
          = mset (heap[pos := heap ! ?pp, ?pp := newitem])"
      using "1.IH"[OF _ refl refl] True ppl by simp
    also have "\<dots> = mset (heap[pos := newitem])"
      using pp ppl "1.prems" by (simp add: mset_update)
    finally show ?thesis using True by (subst siftdown_loop.simps) (simp add: Let_def)
  next
    case False
    then show ?thesis by (subst siftdown_loop.simps) (auto simp: Let_def)
  qed
qed


subsection \<open>The scenarios, evaluated\<close>

lemma S2_init_costs: "init_costs S2_store [0, 1, 2] = S2_costs"
  by (simp add: init_costs_def compute_euclidean_distance_def S2_store_def S2_node_def
        S2_costs_def)

lemma S2_init_penalized_costs: "init_penalized_costs S2_costs S2_store [0, 1, 2] = Some S2_costs"
  by code_simp

lemma S2_compute_neighborhood:
  "compute_neighborhood
     \<lparr>nodes = [0, 1, 2], penalization_enabled = False, edge_penalties = (\<lambda>_. 0),
      baseline_cost = 0, edge_ranking = None, neighborhood_size = 20,
      capacity = 10, costs = S2_costs, penalized_costs = S2_costs,
      neighborhood = [], in_neighborhood_of = [],
      nodes_to_update_for_relocation_chain = [], options_pos = 0,
      penalization_criterium = Width, ejection_costs = Map.empty,
      insertion_costs = Map.empty, insertion_after = Map.empty\<rparr> S2_store [0, 1, 2]
   = Some ([(1, [2]), (2, [1])], [(1, [2]), (2, [1])])"
  by code_simp

lemma S2_compute_baseline_cost:
  "compute_baseline_cost
     \<lparr>nodes = [0, 1, 2], penalization_enabled = False, edge_penalties = (\<lambda>_. 0),
      baseline_cost = 0, edge_ranking = None, neighborhood_size = 20,
      capacity = 10, costs = S2_costs, penalized_costs = S2_costs,
      neighborhood = [(1, [2]), (2, [1])], in_neighborhood_of = [(1, [2]), (2, [1])],
      nodes_to_update_for_relocation_chain = [1, 2], options_pos = 0,
      penalization_criterium = Width, ejection_costs = Map.empty,
      insertion_costs = Map.empty, insertion_after = Map.empty\<rparr> S2_store [0, 1, 2]
   = Some 0"
  by code_simp

lemma S2_nondepots: "filter (\<lambda>n. \<not> is_depot (node_of S2_store n)) [0, 1, 2] = [1, 2]"
  by code_simp

lemma S2_init: "cost_evaluator_init S2_store [0, 1, 2] 10 = Some S2_ce"
  by (simp add: cost_evaluator_init_def S2_init_costs S2_init_penalized_costs
        S2_compute_neighborhood S2_nondepots S2_compute_baseline_cost S2_ce_def
        next_criterium_def criterium_options_def del: One_nat_def filter.simps)


subsection \<open>Loops and dicts\<close>

lemma for_each_preserves:
  assumes "for_each body xs s = Some s'" and "P s"
      and "\<And>x t t'. x \<in> set xs \<Longrightarrow> P t \<Longrightarrow> body x t = Some t' \<Longrightarrow> P t'"
  shows "P s'"
  using assms
proof (induction xs arbitrary: s)
  case Nil
  then show ?case by simp
next
  case (Cons x xs)
  from Cons.prems(1) obtain t where t: "body x s = Some t" and r: "for_each body xs t = Some s'"
    by (auto split: option.splits)
  have "P t" using Cons.prems(2,3) t by auto
  with Cons.IH [OF r] Cons.prems(3) show ?case by auto
qed

lemma map_of_foldl_update:
  "map_of (foldl (\<lambda>m x. AList.update (k x) (v x) m) m0 xs)
     = map_of m0 ++ map_of (rev (map (\<lambda>x. (k x, v x)) xs))"
proof (induction xs arbitrary: m0)
  case Nil
  then show ?case by simp
next
  case (Cons x xs)
  show ?case
    by (simp add: Cons.IH update_conv' map_add_upd_left fun_eq_iff map_add_def
             split: option.splits)
qed

lemma map_of_key_determined:
  "map_of (map (\<lambda>x. (k x, h (k x))) xs) j = (if j \<in> k ` set xs then Some (h j) else None)"
  by (induction xs) auto

lemma map_of_rev_key_determined:
  "map_of (rev (map (\<lambda>x. (k x, h (k x))) xs)) j = (if j \<in> k ` set xs then Some (h j) else None)"
  using map_of_key_determined [of k h "rev xs" j] by (simp add: rev_map)

lemma for_each_update_map_of:
  assumes "for_each (\<lambda>x m. do { v \<leftarrow> g x; Some (AList.update (k x) v m) }) xs m0 = Some m"
  shows "(\<forall>x \<in> set xs. g x \<noteq> None)
         \<and> map_of m = map_of m0 ++ map_of (rev (map (\<lambda>x. (k x, the (g x))) xs))"
  using assms
proof (induction xs arbitrary: m0)
  case Nil
  then show ?case by simp
next
  case (Cons x xs)
  from Cons.prems obtain v where v: "g x = Some v"
    and r: "for_each (\<lambda>x m. do { v \<leftarrow> g x; Some (AList.update (k x) v m) }) xs
              (AList.update (k x) v m0) = Some m"
    by (auto split: option.splits Option.bind_splits)
  from Cons.IH [OF r] v show ?case
    by (auto simp: update_conv' fun_eq_iff map_add_def split: option.splits)
qed

lemma map_of_map_val:
  "map_of (map (\<lambda>x. (k x, v x)) xs) i = map_option v (map_of (map (\<lambda>x. (k x, x)) xs) i)"
  by (induction xs) auto

lemma map_of_rev_map_val:
  "map_of (rev (map (\<lambda>x. (k x, v x)) xs)) i
     = map_option v (map_of (rev (map (\<lambda>x. (k x, x)) xs)) i)"
  using map_of_map_val [of k v "rev xs" i] by (simp add: rev_map)

lemma map_of_rev_map_None:
  "map_of (rev (map (\<lambda>x. (k x, x)) xs)) i = None \<longleftrightarrow> i \<notin> k ` set xs"
  by (simp add: map_of_eq_None_iff image_image)

subsection \<open>The matrices at construction\<close>

lemma compute_euclidean_distance_commute:
  "compute_euclidean_distance st a b = compute_euclidean_distance st b a"
  by (simp add: compute_euclidean_distance_def power2_commute)

lemma py_round_nonneg: "0 \<le> x \<Longrightarrow> 0 \<le> py_round x"
  by (simp add: py_round_def)

lemma compute_euclidean_distance_nonneg: "0 \<le> compute_euclidean_distance st a b"
  by (simp add: compute_euclidean_distance_def py_round_nonneg)

lemma lookup2_init_costs:
  "lookup2 (init_costs st ns) i j =
     (case map_of (rev (map (\<lambda>n. (node_id (node_of st n), n)) ns)) i of
        None \<Rightarrow> None
      | Some n1 \<Rightarrow>
          (case map_of (rev (map (\<lambda>n. (node_id (node_of st n), n)) ns)) j of
             None \<Rightarrow> None
           | Some n2 \<Rightarrow> Some (compute_euclidean_distance st n1 n2)))"
proof -
  have row: "map_of (foldl (\<lambda>row node2. AList.update (node_id (node_of st node2))
                              (compute_euclidean_distance st n1 node2) row) [] ns) j
             = map_option (compute_euclidean_distance st n1)
                 (map_of (rev (map (\<lambda>n. (node_id (node_of st n), n)) ns)) j)" for n1
    by (simp add: map_of_foldl_update
          map_of_rev_map_val [of "\<lambda>n. node_id (node_of st n)" "compute_euclidean_distance st n1"])
  show ?thesis
    unfolding lookup2_def init_costs_def map_of_foldl_update
    by (simp add: map_of_rev_map_val [of "\<lambda>n. node_id (node_of st n)"
                    "\<lambda>node1. foldl (\<lambda>row node2. AList.update (node_id (node_of st node2))
                              (compute_euclidean_distance st node1 node2) row) [] ns"]
          row split: option.splits)
qed

lemma lookup2_init_costs_sym:
  "lookup2 (init_costs st ns) i j = lookup2 (init_costs st ns) j i"
  by (auto simp: lookup2_init_costs compute_euclidean_distance_commute split: option.splits)

lemma lookup2_init_costs_nonneg:
  "lookup2 (init_costs st ns) i j = Some d \<Longrightarrow> 0 \<le> d"
  by (auto simp: lookup2_init_costs compute_euclidean_distance_nonneg split: option.splits)

lemma lookup2_init_costs_dom:
  "lookup2 (init_costs st ns) i j \<noteq> None
     \<longleftrightarrow> i \<in> (\<lambda>n. node_id (node_of st n)) ` set ns \<and> j \<in> (\<lambda>n. node_id (node_of st n)) ` set ns"
proof -
  have "map_of (rev (map (\<lambda>n. (node_id (node_of st n), n)) ns)) k \<noteq> None
          \<longleftrightarrow> k \<in> (\<lambda>n. node_id (node_of st n)) ` set ns" for k
    using map_of_rev_map_None [of "\<lambda>n. node_id (node_of st n)" ns k] by simp
  from this [of i] this [of j] show ?thesis
    by (auto simp: lookup2_init_costs split: option.splits)
qed

lemma lookup2_init_penalized_costs:
  assumes "init_penalized_costs c st ns = Some pc"
  shows "lookup2 pc i j =
           (if i \<in> (\<lambda>n. node_id (node_of st n)) ` set ns
               \<and> j \<in> (\<lambda>n. node_id (node_of st n)) ` set ns
            then lookup2 c i j else None)"
proof -
  let ?k = "\<lambda>n. node_id (node_of st n)"
  let ?G = "\<lambda>i. for_each (\<lambda>node2 row.
                   do { v \<leftarrow> lookup2 c i (?k node2); Some (AList.update (?k node2) v row) }) ns []"
  from assms have "for_each (\<lambda>node1 m. do { row \<leftarrow> ?G (?k node1);
                                Some (AList.update (?k node1) row m) }) ns [] = Some pc"
    by (simp add: init_penalized_costs_def)
  from for_each_update_map_of [OF this]
  have ok: "\<forall>x \<in> set ns. ?G (?k x) \<noteq> None"
    and pc: "map_of pc = map_of (rev (map (\<lambda>x. (?k x, the (?G (?k x)))) ns))"
    by auto
  have pc': "map_of pc i = (if i \<in> ?k ` set ns then Some (the (?G i)) else None)"
    unfolding pc using map_of_rev_key_determined [of ?k "\<lambda>i. the (?G i)" ns i] by simp
  show ?thesis
  proof (cases "i \<in> ?k ` set ns")
    case False
    then show ?thesis by (simp add: lookup2_def pc')
  next
    case True
    with ok obtain row where row: "?G i = Some row" by auto
    from for_each_update_map_of [OF row]
    have ok2: "\<forall>x \<in> set ns. lookup2 c i (?k x) \<noteq> None"
      and r: "map_of row = map_of (rev (map (\<lambda>x. (?k x, the (lookup2 c i (?k x)))) ns))"
      by auto
    have "map_of row j = (if j \<in> ?k ` set ns then Some (the (lookup2 c i j)) else None)"
      unfolding r using map_of_rev_key_determined [of ?k "\<lambda>j. the (lookup2 c i j)" ns j]
      by simp
    with ok2 True row show ?thesis by (auto simp: lookup2_def pc')
  qed
qed

lemma lookup2_init_penalized_costs_eq:
  assumes "init_penalized_costs (init_costs st ns) st ns = Some pc"
  shows "lookup2 pc i j = lookup2 (init_costs st ns) i j"
  using lookup2_init_penalized_costs [OF assms, of i j] lookup2_init_costs_dom [of st ns i j]
  by (auto split: if_splits)

subsection \<open>What the operations leave unchanged\<close>

lemma update_ejection_costs_fields:
  "update_ejection_costs ce st n = Some ce' \<Longrightarrow>
     fixed_part ce' = fixed_part ce \<and> penalized_costs ce' = penalized_costs ce
     \<and> edge_penalties ce' = edge_penalties ce"
  by (auto simp: update_ejection_costs_def fixed_part_def split: Option.bind_splits)

lemma update_insertion_costs_fields:
  "update_insertion_costs ce st n a = Some ce' \<Longrightarrow>
     fixed_part ce' = fixed_part ce \<and> penalized_costs ce' = penalized_costs ce
     \<and> edge_penalties ce' = edge_penalties ce"
  by (auto simp: update_insertion_costs_def fixed_part_def Let_def
           split: Option.bind_splits if_splits)

lemma for_each_update_insertion_costs_fields:
  assumes "for_each (\<lambda>x c. update_insertion_costs c st (f x) (g x)) xs ce = Some ce'"
  shows "fixed_part ce' = fixed_part ce \<and> penalized_costs ce' = penalized_costs ce
         \<and> edge_penalties ce' = edge_penalties ce"
  by (rule for_each_preserves [OF assms, where P = "\<lambda>c. fixed_part c = fixed_part ce
          \<and> penalized_costs c = penalized_costs ce \<and> edge_penalties c = edge_penalties ce"])
     (auto dest: update_insertion_costs_fields)

lemma update_relocation_costs_fields:
  assumes "update_relocation_costs ce st = Some ce'"
  shows "fixed_part ce' = fixed_part ce \<and> penalized_costs ce' = penalized_costs ce
         \<and> edge_penalties ce' = edge_penalties ce"
proof -
  let ?P = "\<lambda>c. fixed_part c = fixed_part ce \<and> penalized_costs c = penalized_costs ce
                \<and> edge_penalties c = edge_penalties ce"
  from assms obtain ce1 where
    loop: "for_each (\<lambda>n ce1.
             do {
               ce2 \<leftarrow> update_ejection_costs ce1 st n;
               l \<leftarrow> map_of (in_neighborhood_of ce2) n;
               ce3 \<leftarrow> for_each (\<lambda>potential_neighbour c.
                                  update_insertion_costs c st n potential_neighbour) l ce2;
               l' \<leftarrow> map_of (in_neighborhood_of ce3) n;
               for_each (\<lambda>potential_neighbour c.
                           update_insertion_costs c st potential_neighbour n) l' ce3
             }) (nodes_to_update_for_relocation_chain ce) ce = Some ce1"
    and ce': "ce' = ce1\<lparr>nodes_to_update_for_relocation_chain := []\<rparr>"
    by (auto simp: update_relocation_costs_def split: Option.bind_splits)
  have "?P ce1"
  proof (rule for_each_preserves [OF loop, where P = ?P])
    show "?P ce" by simp
  next
    fix n t t'
    assume t: "?P t"
      and body: "do {
               ce2 \<leftarrow> update_ejection_costs t st n;
               l \<leftarrow> map_of (in_neighborhood_of ce2) n;
               ce3 \<leftarrow> for_each (\<lambda>potential_neighbour c.
                                  update_insertion_costs c st n potential_neighbour) l ce2;
               l' \<leftarrow> map_of (in_neighborhood_of ce3) n;
               for_each (\<lambda>potential_neighbour c.
                           update_insertion_costs c st potential_neighbour n) l' ce3
             } = Some t'"
    from body obtain ce2 l ce3 l' where
      a: "update_ejection_costs t st n = Some ce2"
      and b: "for_each (\<lambda>x c. update_insertion_costs c st n x) l ce2 = Some ce3"
      and c: "for_each (\<lambda>x c. update_insertion_costs c st x n) l' ce3 = Some t'"
      by (auto split: Option.bind_splits)
    from update_ejection_costs_fields [OF a]
         for_each_update_insertion_costs_fields [OF b]
         for_each_update_insertion_costs_fields [OF c] t
    show "?P t'" by simp
  qed
  with ce' show ?thesis by (simp add: fixed_part_def)
qed

lemma determine_edge_badness_fields:
  "determine_edge_badness ce st routes = Some ce' \<Longrightarrow>
     fixed_part ce' = fixed_part ce \<and> penalized_costs ce' = penalized_costs ce
     \<and> edge_penalties ce' = edge_penalties ce"
  by (auto simp: determine_edge_badness_def fixed_part_def split: Option.bind_splits)

lemma get_and_penalize_worst_edge_fields:
  "get_and_penalize_worst_edge ce st = Some (e, ce') \<Longrightarrow> fixed_part ce' = fixed_part ce"
  by (auto simp: get_and_penalize_worst_edge_def fixed_part_def Let_def
           split: Option.bind_splits if_splits)

lemma apply_operation_fixed_part:
  "apply_operation ce st operation = Some ce' \<Longrightarrow> fixed_part ce' = fixed_part ce"
  by (cases operation)
     (auto simp: apply_operation_def penalize_def enable_penalization_def
        disable_penalization_def fixed_part_def
        dest: get_and_penalize_worst_edge_fields determine_edge_badness_fields
          update_relocation_costs_fields)

lemma run_fixed_part: "run ce calls = Some ce' \<Longrightarrow> fixed_part ce' = fixed_part ce"
proof (induction calls arbitrary: ce)
  case Nil
  then show ?case by simp
next
  case (Cons call calls)
  obtain st operation where call: "call = (st, operation)" by (cases call)
  with Cons.prems obtain ce1 where a: "apply_operation ce st operation = Some ce1"
    and r: "run ce1 calls = Some ce'"
    by (auto split: option.splits)
  from Cons.IH [OF r] apply_operation_fixed_part [OF a] show ?case by simp
qed

subsection \<open>The invariant\<close>

lemma py_round_ge: "0 \<le> t \<Longrightarrow> c \<le> py_round (real_of_int c + t)"
proof -
  assume "0 \<le> t"
  then have "c \<le> \<lfloor>real_of_int c + t\<rfloor>" by linarith
  then show ?thesis by (auto simp: py_round_def)
qed

lemma get_and_penalize_worst_edge_pops:
  "get_and_penalize_worst_edge ce st = Some (e', ce') \<Longrightarrow>
     \<exists>ranking e ranking1. edge_ranking ce = Some ranking
        \<and> get_max_element ranking = Some (e, ranking1)"
  by (auto simp: get_and_penalize_worst_edge_def split: Option.bind_splits)

lemma get_and_penalize_worst_edge_effect:
  assumes "edge_ranking ce = Some ranking"
      and "get_max_element ranking = Some (e, ranking1)"
      and "get_and_penalize_worst_edge ce st = Some (e', ce')"
  shows "\<exists>c. lookup2 (costs ce) (node_id (node_of st (first_node e)))
                                  (node_id (node_of st (second_node e))) = Some c
           \<and> edge_penalties ce' = (edge_penalties ce)
                 (edge_key e := edge_penalties ce (edge_key e) + 1)
           \<and> (\<forall>a b. lookup2 (penalized_costs ce') a b =
                 (if (a = node_id (node_of st (second_node e))
                      \<and> b = node_id (node_of st (first_node e)))
                     \<or> (a = node_id (node_of st (first_node e))
                         \<and> b = node_id (node_of st (second_node e)))
                  then Some (py_round (real_of_int c + 0.1 * real_of_int (baseline_cost ce)
                               * real_of_int (edge_penalties ce (edge_key e) + 1)))
                  else lookup2 (penalized_costs ce) a b))
           \<and> e' = e\<lparr>edge_value :=
                      real_of_int c / real_of_int (1 + (edge_penalties ce (edge_key e) + 1))\<rparr>
           \<and> edge_ranking ce' = Some (insert_element ranking1 e')"
  using assms
  by (auto simp: get_and_penalize_worst_edge_def Let_def lookup2_set2
           split: Option.bind_splits if_splits)

lemma get_and_penalize_worst_edge_invariant:
  assumes run: "get_and_penalize_worst_edge ce st = Some (e', ce')"
      and inv: "evaluator_invariant ce"
  shows "evaluator_invariant ce'"
proof -
  from get_and_penalize_worst_edge_pops [OF run] obtain ranking e ranking1 where
    r: "edge_ranking ce = Some ranking" and pop: "get_max_element ranking = Some (e, ranking1)"
    by blast
  let ?i = "node_id (node_of st (first_node e))"
  let ?j = "node_id (node_of st (second_node e))"
  from get_and_penalize_worst_edge_effect [OF r pop run] obtain c where
    c: "lookup2 (costs ce) ?i ?j = Some c"
    and pe: "edge_penalties ce' = (edge_penalties ce)
               (edge_key e := edge_penalties ce (edge_key e) + 1)"
    and look: "\<And>a b. lookup2 (penalized_costs ce') a b =
                 (if (a = ?j \<and> b = ?i) \<or> (a = ?i \<and> b = ?j)
                  then Some (py_round (real_of_int c + 0.1 * real_of_int (baseline_cost ce)
                               * real_of_int (edge_penalties ce (edge_key e) + 1)))
                  else lookup2 (penalized_costs ce) a b)"
    by blast
  let ?v = "py_round (real_of_int c + 0.1 * real_of_int (baseline_cost ce)
                  * real_of_int (edge_penalties ce (edge_key e) + 1))"
  from get_and_penalize_worst_edge_fields [OF run]
  have co: "costs ce' = costs ce" and ba: "baseline_cost ce' = baseline_cost ce"
    by (simp_all add: fixed_part_def)
  from inv have b0: "0 \<le> baseline_cost ce" and p0: "0 \<le> edge_penalties ce (edge_key e)"
    by (simp_all add: evaluator_invariant_def)
  then have "0 \<le> 0.1 * real_of_int (baseline_cost ce)
                  * real_of_int (edge_penalties ce (edge_key e) + 1)"
    by simp
  then have v: "c \<le> ?v" by (rule py_round_ge)
  from inv c have c': "lookup2 (costs ce) ?j ?i = Some c"
    by (simp add: evaluator_invariant_def)
  have sym: "lookup2 (penalized_costs ce') a b = lookup2 (penalized_costs ce') b a" for a b
    using inv unfolding look evaluator_invariant_def by auto
  have rel: "rel_option (\<le>) (lookup2 (costs ce) a b) (lookup2 (penalized_costs ce') a b)"
    for a b
  proof (cases "(a = ?j \<and> b = ?i) \<or> (a = ?i \<and> b = ?j)")
    case True
    then show ?thesis unfolding look using c c' v by auto
  next
    case False
    have "lookup2 (penalized_costs ce') a b = lookup2 (penalized_costs ce) a b"
      by (simp only: look False if_False)
    with inv show ?thesis by (simp add: evaluator_invariant_def)
  qed
  from inv have pen: "0 \<le> edge_penalties ce' k" for k
    by (simp add: pe evaluator_invariant_def)
  from inv have cs: "lookup2 (costs ce) a b = lookup2 (costs ce) b a" for a b
    by (simp add: evaluator_invariant_def)
  show ?thesis
    unfolding evaluator_invariant_def co ba
    using sym rel b0 pen cs by blast
qed

lemma evaluator_invariant_cong:
  assumes "evaluator_invariant ce" and "fixed_part ce' = fixed_part ce"
      and "penalized_costs ce' = penalized_costs ce" and "edge_penalties ce' = edge_penalties ce"
  shows "evaluator_invariant ce'"
  using assms by (simp add: evaluator_invariant_def fixed_part_def)

lemma apply_operation_invariant:
  assumes "apply_operation ce st operation = Some ce'" and "evaluator_invariant ce"
  shows "evaluator_invariant ce'"
proof (cases operation)
  case Get_and_penalize_worst_edge
  with assms show ?thesis
    by (auto simp: apply_operation_def dest: get_and_penalize_worst_edge_invariant)
next
  case (Penalize e)
  with assms show ?thesis
    by (auto simp: apply_operation_def penalize_def evaluator_invariant_def)
next
  case Enable_penalization
  with assms show ?thesis
    by (auto simp: apply_operation_def enable_penalization_def evaluator_invariant_def)
next
  case Disable_penalization
  with assms show ?thesis
    by (auto simp: apply_operation_def disable_penalization_def evaluator_invariant_def)
next
  case (Determine_edge_badness routes)
  with assms show ?thesis
    by (auto simp: apply_operation_def
             dest!: determine_edge_badness_fields intro: evaluator_invariant_cong)
next
  case Update_relocation_costs
  with assms show ?thesis
    by (auto simp: apply_operation_def
             dest!: update_relocation_costs_fields intro: evaluator_invariant_cong)
qed

lemma run_invariant:
  "run ce calls = Some ce' \<Longrightarrow> evaluator_invariant ce \<Longrightarrow> evaluator_invariant ce'"
proof (induction calls arbitrary: ce)
  case Nil
  then show ?case by simp
next
  case (Cons call calls)
  obtain st operation where call: "call = (st, operation)" by (cases call)
  with Cons.prems obtain ce1 where a: "apply_operation ce st operation = Some ce1"
    and r: "run ce1 calls = Some ce'"
    by (auto split: option.splits)
  from Cons.IH [OF r] apply_operation_invariant [OF a] Cons.prems(2) show ?case by simp
qed

subsection \<open>The evaluator at construction\<close>

lemma those_SomeD: "those xs = Some ys \<Longrightarrow> y \<in> set ys \<Longrightarrow> Some y \<in> set xs"
proof (induction xs arbitrary: ys)
  case Nil
  then show ?case by simp
next
  case (Cons x xs)
  then show ?case by (auto split: option.splits)
qed

lemma py_int_nonneg: "0 \<le> x \<Longrightarrow> 0 \<le> py_int x"
  by (simp add: py_int_def)

lemma compute_baseline_cost_nonneg:
  assumes b: "compute_baseline_cost ce st ns = Some b"
      and d: "\<And>n m d. get_distance ce st n m = Some d \<Longrightarrow> 0 \<le> d"
  shows "0 \<le> b"
proof -
  from b obtain ds where
    ds: "those (concat (map (\<lambda>n. case map_of (neighborhood ce) n of
                                          None \<Rightarrow> [None]
                                        | Some l \<Rightarrow> map (\<lambda>other. get_distance ce st n other) l)
                                (filter (\<lambda>n. \<not> is_depot (node_of st n)) ns))) = Some ds"
    and bb: "b = py_int (real_of_int (sum_list ds) / real (neighborhood_size ce * length ns))"
    by (auto simp: compute_baseline_cost_def split: Option.bind_splits if_splits)
  have "0 \<le> y" if "y \<in> set ds" for y
  proof -
    from those_SomeD [OF ds that] obtain n m where "get_distance ce st n m = Some y"
      by (auto split: option.splits)
    then show ?thesis by (rule d)
  qed
  then have "0 \<le> sum_list ds" by (simp add: sum_list_nonneg)
  then show ?thesis unfolding bb by (intro py_int_nonneg divide_nonneg_nonneg) simp_all
qed

lemma for_each_update_keys:
  assumes "for_each (\<lambda>n d. if skip n then Some d
                            else do { v \<leftarrow> g n; Some (AList.update n v d) }) ns d0 = Some d"
  shows "fst ` set d = fst ` set d0 \<union> {n \<in> set ns. \<not> skip n}
         \<and> (distinct (map fst d0) \<longrightarrow> distinct (map fst d))"
  using assms
proof (induction ns arbitrary: d0)
  case Nil
  then show ?case by simp
next
  case (Cons n ns)
  show ?case
  proof (cases "skip n")
    case True
    with Cons.prems have "for_each (\<lambda>n d. if skip n then Some d
                            else do { v \<leftarrow> g n; Some (AList.update n v d) }) ns d0 = Some d"
      by simp
    from Cons.IH [OF this] True show ?thesis by auto
  next
    case False
    with Cons.prems obtain v where
      r: "for_each (\<lambda>n d. if skip n then Some d
                            else do { v \<leftarrow> g n; Some (AList.update n v d) }) ns
            (AList.update n v d0) = Some d"
      by (auto split: Option.bind_splits option.splits)
    from Cons.IH [OF r] False show ?thesis
      by (auto simp: dom_update distinct_update)
  qed
qed

lemma compute_neighborhood_keys:
  assumes "compute_neighborhood ce st ns = Some (nb, inb)"
  shows "set (map fst nb) = {n \<in> set ns. \<not> is_depot (node_of st n)} \<and> distinct (map fst nb)"
proof -
  from assms have "for_each (\<lambda>n d.
                if is_depot (node_of st n) then Some d
                else do { nn \<leftarrow> get_nearest_neighbors ce st n; Some (AList.update n nn d) })
              ns [] = Some nb"
    by (auto simp: compute_neighborhood_def split: Option.bind_splits)
  from for_each_update_keys [OF this] show ?thesis by simp
qed

lemma cost_evaluator_init_fields:
  assumes "cost_evaluator_init st ns cap = Some ce"
  shows "nodes ce = ns \<and> costs ce = init_costs st ns \<and> edge_penalties ce = (\<lambda>_. 0)
         \<and> init_penalized_costs (init_costs st ns) st ns = Some (penalized_costs ce)
         \<and> (\<exists>ce0 inb. compute_neighborhood ce0 st ns = Some (neighborhood ce, inb))
         \<and> (\<exists>ce1. costs ce1 = init_costs st ns \<and> \<not> penalization_enabled ce1
                  \<and> compute_baseline_cost ce1 st ns = Some (baseline_cost ce))"
  using assms unfolding cost_evaluator_init_def Let_def
  apply (clarsimp simp: bind_eq_Some_conv)
  apply (rule conjI)
   apply blast
  apply (rule exI, rule conjI [rotated], rule conjI [rotated], assumption)
   apply simp_all
  done

lemma cost_evaluator_init_invariant:
  assumes "cost_evaluator_init st ns cap = Some ce"
  shows "evaluator_invariant ce"
proof -
  from cost_evaluator_init_fields [OF assms] obtain ce1 where
    co: "costs ce = init_costs st ns" and pe: "edge_penalties ce = (\<lambda>_. 0)"
    and pc: "init_penalized_costs (init_costs st ns) st ns = Some (penalized_costs ce)"
    and c1: "costs ce1 = init_costs st ns" "\<not> penalization_enabled ce1"
    and b: "compute_baseline_cost ce1 st ns = Some (baseline_cost ce)"
    by blast
  have "0 \<le> d" if "get_distance ce1 st n m = Some d" for n m d
    using that c1 by (auto simp: get_distance_def dest: lookup2_init_costs_nonneg)
  with b have "0 \<le> baseline_cost ce" by (rule compute_baseline_cost_nonneg)
  moreover have "lookup2 (penalized_costs ce) i j = lookup2 (init_costs st ns) i j" for i j
    by (rule lookup2_init_penalized_costs_eq [OF pc])
  ultimately show ?thesis
    unfolding evaluator_invariant_def co pe
    by (simp add: lookup2_init_costs_sym [of st ns] option.rel_refl)
qed

lemma lookup2_run_costs:
  assumes "cost_evaluator_init st ns cap = Some ce0" and "run ce0 calls = Some ce"
  shows "lookup2 (costs ce) i j \<noteq> None
           \<longleftrightarrow> i \<in> (\<lambda>n. node_id (node_of st n)) ` set ns
               \<and> j \<in> (\<lambda>n. node_id (node_of st n)) ` set ns"
proof -
  from run_fixed_part [OF assms(2)] cost_evaluator_init_fields [OF assms(1)]
  have "costs ce = init_costs st ns" by (simp add: fixed_part_def)
  then show ?thesis by (simp only: lookup2_init_costs_dom)
qed

subsection \<open>Scenario T, evaluated\<close>

lemma sqrt_values [simp]:
  "sqrt 360000 = 600" "sqrt 640000 = 800" "sqrt 1000000 = 1000" "sqrt 250000 = 500"
proof -
  have "sqrt ((600::real)\<^sup>2) = 600" "sqrt ((800::real)\<^sup>2) = 800"
       "sqrt ((1000::real)\<^sup>2) = 1000" "sqrt ((500::real)\<^sup>2) = 500"
    by (simp_all only: real_sqrt_abs abs_numeral)
  then show "sqrt 360000 = 600" "sqrt 640000 = 800" "sqrt 1000000 = 1000" "sqrt 250000 = 500"
    by simp_all
qed

lemma T_init_costs: "init_costs T_store [0, 1, 2] = T_costs"
  by (simp add: init_costs_def compute_euclidean_distance_def T_store_def T_node_def
        T_costs_def)

lemma T_init_penalized_costs: "init_penalized_costs T_costs T_store [0, 1, 2] = Some T_costs"
  by code_simp

lemma T_compute_neighborhood:
  "compute_neighborhood
     \<lparr>nodes = [0, 1, 2], penalization_enabled = False, edge_penalties = (\<lambda>_. 0),
      baseline_cost = 0, edge_ranking = None, neighborhood_size = 20,
      capacity = 10, costs = T_costs, penalized_costs = T_costs,
      neighborhood = [], in_neighborhood_of = [],
      nodes_to_update_for_relocation_chain = [], options_pos = 0,
      penalization_criterium = Width, ejection_costs = Map.empty,
      insertion_costs = Map.empty, insertion_after = Map.empty\<rparr> T_store [0, 1, 2]
   = Some ([(1, [2]), (2, [1])], [(1, [2]), (2, [1])])"
  by code_simp

lemma T_compute_baseline_cost:
  "compute_baseline_cost
     \<lparr>nodes = [0, 1, 2], penalization_enabled = False, edge_penalties = (\<lambda>_. 0),
      baseline_cost = 0, edge_ranking = None, neighborhood_size = 20,
      capacity = 10, costs = T_costs, penalized_costs = T_costs,
      neighborhood = [(1, [2]), (2, [1])], in_neighborhood_of = [(1, [2]), (2, [1])],
      nodes_to_update_for_relocation_chain = [1, 2], options_pos = 0,
      penalization_criterium = Width, ejection_costs = Map.empty,
      insertion_costs = Map.empty, insertion_after = Map.empty\<rparr> T_store [0, 1, 2]
   = Some 33"
  by code_simp

lemma T_nondepots: "filter (\<lambda>n. \<not> is_depot (node_of T_store n)) [0, 1, 2] = [1, 2]"
  by code_simp

lemma T_init: "cost_evaluator_init T_store [0, 1, 2] 10 = Some T_ce"
  by (simp add: cost_evaluator_init_def T_init_costs T_init_penalized_costs
        T_compute_neighborhood T_nondepots T_compute_baseline_cost T_ce_def
        next_criterium_def criterium_options_def del: One_nat_def filter.simps)

lemma T_route_center:
  "compute_route_center T_store (get_nodes (route_of T_store 0)) = Some (300, 400)"
  by (simp add: compute_route_center_def T_store_def T_node_def)

lemma T_badness:
  "badness_of_edge T_ce T_store (Some (300, 400)) (route_of T_store 0)
     \<lparr>first_node = 0, second_node = 1, edge_value = 0\<rparr>
     = Some \<lparr>first_node = 0, second_node = 1, edge_value = 480\<rparr>"
  "badness_of_edge T_ce T_store (Some (300, 400)) (route_of T_store 0)
     \<lparr>first_node = 1, second_node = 2, edge_value = 0\<rparr>
     = Some \<lparr>first_node = 1, second_node = 2, edge_value = 960\<rparr>"
  "badness_of_edge T_ce T_store (Some (300, 400)) (route_of T_store 0)
     \<lparr>first_node = 2, second_node = 0, edge_value = 0\<rparr>
     = Some \<lparr>first_node = 2, second_node = 0, edge_value = 480\<rparr>"
  by (simp_all add: badness_of_edge_def compute_edge_value_def compute_edge_width_value_def
        compute_edge_width_def T_ce_def T_store_def T_node_def Let_def)

lemma T_heapify:
  "MaxHeapWithUpdate [\<lparr>first_node = 0, second_node = 1, edge_value = 480\<rparr>,
                      \<lparr>first_node = 1, second_node = 2, edge_value = 960\<rparr>,
                      \<lparr>first_node = 2, second_node = 0, edge_value = 480\<rparr>] = T_ranking"
  by code_simp

lemma T_determine_edge_badness: "determine_edge_badness T_ce T_store [0] = Some T_ce1"
proof -
  have c: "penalization_criterium T_ce = Width" "options_pos T_ce = 1"
    by (simp_all add: T_ce_def)
  have e: "get_edges (route_of T_store 0) = T_edges" by (simp add: T_store_def)
  show ?thesis
    unfolding determine_edge_badness_def c
    by (simp add: T_route_center e T_edges_def T_badness T_heapify T_ce1_def
          next_criterium_def criterium_options_def del: One_nat_def)
qed

lemma T_pop:
  "get_max_element T_ranking
     = Some (\<lparr>first_node = 1, second_node = 2, edge_value = 960\<rparr>,
             [\<lparr>first_node = 0, second_node = 1, edge_value = 480\<rparr>,
              \<lparr>first_node = 2, second_node = 0, edge_value = 480\<rparr>])"
  by code_simp

lemma T_push:
  "insert_element [\<lparr>first_node = 0, second_node = 1, edge_value = 480\<rparr>,
                   \<lparr>first_node = 2, second_node = 0, edge_value = 480\<rparr>]
     \<lparr>first_node = 1, second_node = 2, edge_value = 500\<rparr>
     = [\<lparr>first_node = 1, second_node = 2, edge_value = 500\<rparr>,
        \<lparr>first_node = 2, second_node = 0, edge_value = 480\<rparr>,
        \<lparr>first_node = 0, second_node = 1, edge_value = 480\<rparr>]"
  by code_simp

lemma py_round_T: "py_round (10033 / 10) = 1003"
proof -
  have "\<lfloor>10033 / 10 :: real\<rfloor> = 1003" by linarith
  then show ?thesis by (simp add: py_round_def)
qed

lemma T_get_and_penalize_worst_edge:
  "get_and_penalize_worst_edge T_ce1 T_store
     = Some (\<lparr>first_node = 1, second_node = 2, edge_value = 500\<rparr>, T_ce2)"
proof -
  have r: "edge_ranking T_ce1 = Some T_ranking" by (simp add: T_ce1_def)
  have f: "costs T_ce1 = T_costs" "penalized_costs T_ce1 = T_costs" "baseline_cost T_ce1 = 33"
          "edge_penalties T_ce1 = (\<lambda>_. 0)"
          "nodes_to_update_for_relocation_chain T_ce1 = [1, 2]"
    by (simp_all add: T_ce1_def T_ce_def)
  have i: "node_id (node_of T_store 1) = 1" "node_id (node_of T_store 2) = 2"
          "\<not> is_depot (node_of T_store 1)" "\<not> is_depot (node_of T_store 2)"
    by (simp_all add: T_store_def T_node_def)
  have c: "lookup2 T_costs 1 2 = Some 1000" by code_simp
  have s1: "set2 T_costs 1 2 1003 = Some [(0, [(0, 0), (1, 600), (2, 800)]),
                                          (1, [(0, 600), (1, 0), (2, 1003)]),
                                          (2, [(0, 800), (1, 1000), (2, 0)])]"
    by code_simp
  have s2: "set2 [(0, [(0, 0), (1, 600), (2, 800)]),
                  (1, [(0, 600), (1, 0), (2, 1003)]),
                  (2, [(0, 800), (1, 1000), (2, 0)])] 2 1 1003
            = Some [(0, [(0, 0), (1, 600), (2, 800)]),
                    (1, [(0, 600), (1, 0), (2, 1003)]),
                    (2, [(0, 800), (1, 1003), (2, 0)])]"
    by code_simp
  show ?thesis
    unfolding get_and_penalize_worst_edge_def r
    by (simp add: T_pop Let_def f i c edge_key_def py_round_T s1 s2 T_push T_ce2_def
          del: One_nat_def)
qed

lemma T_run:
  "run T_ce [(T_store, Determine_edge_badness [0]), (T_store, Get_and_penalize_worst_edge),
             (T_store, Enable_penalization)]
     = Some (enable_penalization T_ce2 T_store)"
  by (simp add: apply_operation_def T_determine_edge_badness T_get_and_penalize_worst_edge)

lemma T_run_penalize:
  "run T_ce [(T_store, Determine_edge_badness [0]), (T_store, Get_and_penalize_worst_edge)]
     = Some T_ce2"
  by (simp add: apply_operation_def T_determine_edge_badness T_get_and_penalize_worst_edge)

lemma T_ids:
  "1 \<in> (\<lambda>n. node_id (node_of T_store n)) ` set [0, 1, 2]"
  "2 \<in> (\<lambda>n. node_id (node_of T_store n)) ` set [0, 1, 2]"
  by (simp_all add: T_store_def T_node_def)

subsection \<open>Sifting keeps the heap invariant\<close>

lemma below_ge: "below s q \<Longrightarrow> s \<le> q"
  by (induction rule: below.induct) auto

lemma below_parent: "below s q \<Longrightarrow> q \<noteq> s \<Longrightarrow> below s ((q - 1) div 2) \<and> s < q"
proof (induction rule: below.induct)
  case below_self
  then show ?case by simp
next
  case (below_left q)
  then show ?case using below_ge [of s q] by auto
next
  case (below_right q)
  have "(2 * q + 2 - 1) div 2 = q" by simp
  with below_right show ?case using below_ge [of s q] by auto
qed

lemma below_Suc: "below s q \<Longrightarrow> below s (Suc (2 * q))" "below s q \<Longrightarrow> below s (Suc (Suc (2 * q)))"
  using below_left [of s q] below_right [of s q] by simp_all

lemma parent_less: "0 < j \<Longrightarrow> (j - 1) div 2 < (j::nat)"
  by (cases j) auto

lemma hole_invI:
  assumes "pos < length xs" and "below s pos"
      and "\<And>j. j < length xs \<Longrightarrow> 0 < j \<Longrightarrow> s \<le> (j - 1) div 2 \<Longrightarrow> j \<noteq> pos
              \<Longrightarrow> (j - 1) div 2 \<noteq> pos \<Longrightarrow> k (xs ! ((j - 1) div 2)) \<le> k (xs ! j)"
      and "\<And>j. s < pos \<Longrightarrow> j < length xs \<Longrightarrow> 0 < j \<Longrightarrow> (j - 1) div 2 = pos
              \<Longrightarrow> k (xs ! ((pos - 1) div 2)) \<le> k (xs ! j)"
  shows "hole_inv k s xs pos"
  unfolding hole_inv_def using assms by blast

lemma hole_inv_pos: "hole_inv k s xs pos \<Longrightarrow> pos < length xs \<and> below s pos"
  unfolding hole_inv_def by blast

lemma hole_inv_pair:
  "hole_inv k s xs pos \<Longrightarrow> j < length xs \<Longrightarrow> 0 < j \<Longrightarrow> s \<le> (j - 1) div 2 \<Longrightarrow> j \<noteq> pos
     \<Longrightarrow> (j - 1) div 2 \<noteq> pos \<Longrightarrow> k (xs ! ((j - 1) div 2)) \<le> k (xs ! j)"
  unfolding hole_inv_def by blast

lemma hole_inv_children:
  "hole_inv k s xs pos \<Longrightarrow> s < pos \<Longrightarrow> j < length xs \<Longrightarrow> 0 < j \<Longrightarrow> (j - 1) div 2 = pos
     \<Longrightarrow> k (xs ! ((pos - 1) div 2)) \<le> k (xs ! j)"
  unfolding hole_inv_def by blast

lemma hole_inv_update:
  assumes h: "hole_inv k s xs pos"
  shows "hole_inv k s (xs[pos := x]) pos"
proof (rule hole_invI)
  show "pos < length (xs[pos := x])" "below s pos"
    using hole_inv_pos [OF h] by simp_all
next
  fix j
  assume "j < length (xs[pos := x])" "0 < j" "s \<le> (j - 1) div 2" "j \<noteq> pos"
    "(j - 1) div 2 \<noteq> pos"
  then show "k (xs[pos := x] ! ((j - 1) div 2)) \<le> k (xs[pos := x] ! j)"
    using hole_inv_pair [OF h, of j] by simp
next
  fix j
  assume a: "s < pos" "j < length (xs[pos := x])" "0 < j" "(j - 1) div 2 = pos"
  from a(3,4) parent_less [of j] have "j \<noteq> pos" by simp
  moreover from a(1) parent_less [of pos] have "(pos - 1) div 2 \<noteq> pos" by simp
  ultimately show "k (xs[pos := x] ! ((pos - 1) div 2)) \<le> k (xs[pos := x] ! j)"
    using hole_inv_children [OF h, of j] a by simp
qed

lemma mset_update_swap:
  assumes "p < length xs" "c < length xs"
  shows "mset (xs[p := xs ! c, c := x]) = mset (xs[p := x])"
proof (cases "p = c")
  case True
  then show ?thesis by simp
next
  case False
  with assms show ?thesis by (simp add: mset_update nth_list_update)
qed

lemma siftup_loop_inv:
  "\<forall>a b. lt a b \<longleftrightarrow> k a < k b \<Longrightarrow> hole_inv k s xs pos \<Longrightarrow>
     siftup_loop lt (length xs) xs pos = (ys, p) \<Longrightarrow>
     hole_inv k s ys p \<and> length ys = length xs \<and> length xs \<le> 2 * p + 1
     \<and> (\<forall>x. mset (ys[p := x]) = mset (xs[pos := x]))"
proof (induction lt "length xs" xs pos arbitrary: ys p rule: siftup_loop.induct)
  case (1 lt heap pos)
  from "1.prems"(1) have lt': "\<And>a b. lt a b \<longleftrightarrow> k a < k b" by simp
  let ?n = "length heap"
  let ?c = "2 * pos + 1"
  show ?case
  proof (cases "?c < ?n")
    case False
    with "1.prems"(2,3) show ?thesis
      by (subst (asm) siftup_loop.simps) (simp add: Let_def)
  next
    case True
    let ?c' = "if ?c + 1 < ?n \<and> \<not> lt (heap ! ?c) (heap ! (?c + 1)) then ?c + 1 else ?c"
    let ?heap' = "heap[pos := heap ! ?c']"
    have c'n: "?c' < ?n" using True by auto
    have c'par: "(?c' - 1) div 2 = pos" by auto
    have c'pos: "pos < ?c'" "0 < ?c'" by auto
    have "siftup_loop lt ?n heap pos = siftup_loop lt ?n ?heap' ?c'"
      by (simp only: siftup_loop.simps [of lt "length heap" heap pos] Let_def True if_True)
    with "1.prems"(3)
    have rec: "siftup_loop lt (length ?heap') ?heap' ?c' = (ys, p)"
      by (simp only: length_list_update)
    note h = "1.prems"(2)
    from hole_inv_pos [OF h] have posn: "pos < ?n" and bel: "below s pos" by simp_all
    have small: "k (heap ! ?c') \<le> k (heap ! j)"
      if "j < ?n" "0 < j" "(j - 1) div 2 = pos" for j
    proof -
      from that have jj: "j = ?c \<or> j = ?c + 1" by auto
      show ?thesis
      proof (cases "?c + 1 < ?n \<and> \<not> lt (heap ! ?c) (heap ! (?c + 1))")
        case True
        then have c: "?c' = ?c + 1" by (rule if_P)
        from True have "\<not> k (heap ! ?c) < k (heap ! (?c + 1))"
          unfolding lt' by (rule conjunct2)
        then have "k (heap ! (?c + 1)) \<le> k (heap ! ?c)"
          by (rule leI)
        with jj show ?thesis unfolding c by (elim disjE) simp_all
      next
        case False
        then have c: "?c' = ?c" by (rule if_not_P)
        show ?thesis
        proof (cases "j = ?c")
          case True
          then show ?thesis unfolding c by simp
        next
          case ne: False
          with jj have j1: "j = ?c + 1" by simp
          with that(1) False have "lt (heap ! ?c) (heap ! (?c + 1))" by simp
          then have "k (heap ! ?c) < k (heap ! (?c + 1))" unfolding lt' .
          then have "k (heap ! ?c) \<le> k (heap ! (?c + 1))" by (rule less_imp_le)
          then show ?thesis unfolding c j1 .
        qed
      qed
    qed
    have inv': "hole_inv k s ?heap' ?c'"
    proof (rule hole_invI)
      show "?c' < length ?heap'" using c'n by simp
      show "below s ?c'" using bel by (auto intro: below_Suc)
    next
      fix j
      assume j: "j < length ?heap'" "0 < j" "s \<le> (j - 1) div 2" "j \<noteq> ?c'"
        "(j - 1) div 2 \<noteq> ?c'"
      show "k (?heap' ! ((j - 1) div 2)) \<le> k (?heap' ! j)"
      proof (cases "j = pos")
        case True
        with j(3) parent_less [OF j(2)] have sp: "s < pos" by simp
        from True parent_less [OF j(2)] have ne: "(j - 1) div 2 \<noteq> pos" by simp
        from hole_inv_children [OF h sp c'n c'pos(2) c'par] True ne posn
        show ?thesis by simp
      next
        case False
        show ?thesis
        proof (cases "(j - 1) div 2 = pos")
          case True
          from small [of j] j True posn False show ?thesis by simp
        next
          case ne: False
          from hole_inv_pair [OF h, of j] j False ne show ?thesis by simp
        qed
      qed
    next
      fix j
      assume j: "s < ?c'" "j < length ?heap'" "0 < j" "(j - 1) div 2 = ?c'"
      from j(3,4) c'pos have jp: "j \<noteq> pos" "(j - 1) div 2 \<noteq> pos" by auto
      from below_ge [OF bel] have "s \<le> (j - 1) div 2" using j(4) c'pos by auto
      from hole_inv_pair [OF h, of j] j this jp
      have "k (heap ! ?c') \<le> k (heap ! j)" by simp
      with jp c'par posn show "k (?heap' ! ((?c' - 1) div 2)) \<le> k (?heap' ! j)"
        by (simp del: One_nat_def)
    qed
    have len: "length ?heap' = ?n" by simp
    from "1.hyps" [OF refl True refl refl len [symmetric] "1.prems"(1) inv' rec]
    have res: "hole_inv k s ys p" "length ys = length ?heap'" "length ?heap' \<le> 2 * p + 1"
      "\<And>x. mset (ys[p := x]) = mset (?heap'[?c' := x])"
      by auto
    have "mset (?heap'[?c' := x]) = mset (heap[pos := x])" for x
      by (rule mset_update_swap [OF posn c'n])
    with res show ?thesis by simp
  qed
qed

lemma siftdown_loop_heap:
  "\<forall>a b. lt a b \<longleftrightarrow> k a < k b \<Longrightarrow> hole_inv k s xs q \<Longrightarrow>
     (\<forall>j < length xs. 0 < j \<and> (j - 1) div 2 = q \<longrightarrow> k item \<le> k (xs ! j)) \<Longrightarrow>
     heap_from k s (siftdown_loop lt item s xs q)"
proof (induction lt item s xs q rule: siftdown_loop.induct)
  case (1 lt newitem startpos heap pos)
  from "1.prems"(1) have lt': "\<And>a b. lt a b \<longleftrightarrow> k a < k b" by simp
  note h = "1.prems"(2)
  from "1.prems"(3) have ch: "\<And>j. j < length heap \<Longrightarrow> 0 < j \<Longrightarrow> (j - 1) div 2 = pos
                                 \<Longrightarrow> k newitem \<le> k (heap ! j)"
    by blast
  from hole_inv_pos [OF h] have posn: "pos < length heap" and bel: "below startpos pos"
    by simp_all
  let ?pp = "(pos - 1) div 2"
  show ?case
  proof (cases "pos > startpos \<and> lt newitem (heap ! ?pp)")
    case True
    then have sp: "startpos < pos" and less: "k newitem < k (heap ! ?pp)"
      unfolding lt' by simp_all
    from sp have pos0: "0 < pos" by simp
    from parent_less [OF pos0] have pp: "?pp < pos" .
    with posn have ppn: "?pp < length heap" by simp
    from below_parent [OF bel] sp have belp: "below startpos ?pp" by simp
    let ?heap' = "heap[pos := heap ! ?pp]"
    have step: "siftdown_loop lt newitem startpos heap pos
                = siftdown_loop lt newitem startpos ?heap' ?pp"
      using True by (subst siftdown_loop.simps) (simp add: Let_def)
    have sib: "k (heap ! ?pp) \<le> k (heap ! j)"
      if "j < length heap" "0 < j" "(j - 1) div 2 = ?pp" "j \<noteq> pos" for j
      using hole_inv_pair [OF h, of j] that pp below_ge [OF belp] by simp
    have inv': "hole_inv k startpos ?heap' ?pp"
    proof (rule hole_invI)
      show "?pp < length ?heap'" using ppn by simp
      show "below startpos ?pp" by (rule belp)
    next
      fix j
      assume j: "j < length ?heap'" "0 < j" "startpos \<le> (j - 1) div 2" "j \<noteq> ?pp"
        "(j - 1) div 2 \<noteq> ?pp"
      from j(5) have jpos: "j \<noteq> pos" by auto
      show "k (?heap' ! ((j - 1) div 2)) \<le> k (?heap' ! j)"
      proof (cases "(j - 1) div 2 = pos")
        case True
        from hole_inv_children [OF h sp, of j] j True jpos posn show ?thesis by simp
      next
        case False
        from hole_inv_pair [OF h, of j] j False jpos show ?thesis by simp
      qed
    next
      fix j
      assume j: "startpos < ?pp" "j < length ?heap'" "0 < j" "(j - 1) div 2 = ?pp"
      let ?g = "(?pp - 1) div 2"
      from j(1) have pp0: "0 < ?pp" by simp
      from parent_less [OF pp0] pp have g: "?g \<noteq> pos" "?g \<noteq> ?pp" by simp_all
      from below_parent [OF belp] j(1) have "below startpos ?g" by simp
      from below_ge [OF this] have sg: "startpos \<le> ?g" .
      from hole_inv_pair [OF h, of ?pp] ppn pp0 sg pp g
      have gp: "k (heap ! ?g) \<le> k (heap ! ?pp)" by simp
      show "k (?heap' ! ?g) \<le> k (?heap' ! j)"
      proof (cases "j = pos")
        case True
        with gp g posn show ?thesis by simp
      next
        case False
        from sib [of j] j False have "k (heap ! ?pp) \<le> k (heap ! j)" by simp
        with gp have "k (heap ! ?g) \<le> k (heap ! j)" by (rule order_trans)
        with False g show ?thesis by simp
      qed
    qed
    have ch': "\<forall>j < length ?heap'. 0 < j \<and> (j - 1) div 2 = ?pp \<longrightarrow> k newitem \<le> k (?heap' ! j)"
    proof (intro allI impI)
      fix j
      assume "j < length ?heap'" "0 < j \<and> (j - 1) div 2 = ?pp"
      then have j: "j < length heap" "0 < j" "(j - 1) div 2 = ?pp" by simp_all
      show "k newitem \<le> k (?heap' ! j)"
      proof (cases "j = pos")
        case True
        with less posn show ?thesis by simp
      next
        case False
        from sib [OF j False] less have "k newitem \<le> k (heap ! j)" by simp
        with False show ?thesis by simp
      qed
    qed
    from "1.IH" [OF _ refl refl _ "1.prems"(1) inv' ch'] True
    have "heap_from k startpos (siftdown_loop lt newitem startpos ?heap' ?pp)" by simp
    then show ?thesis by (simp only: step)
  next
    case False
    then have res: "siftdown_loop lt newitem startpos heap pos = heap[pos := newitem]"
      by (subst siftdown_loop.simps) (auto simp: Let_def)
    have "k (heap[pos := newitem] ! ((j - 1) div 2)) \<le> k (heap[pos := newitem] ! j)"
      if j: "j < length heap" "0 < j" "startpos \<le> (j - 1) div 2" for j
    proof (cases "j = pos")
      case True
      from parent_less [OF j(2)] j(3) True have sp: "startpos < pos" by simp
      with False have "\<not> k newitem < k (heap ! ?pp)" unfolding lt' by simp
      then have "k (heap ! ?pp) \<le> k newitem" by (rule leI)
      moreover from parent_less [OF j(2)] True have "?pp \<noteq> pos" by simp
      ultimately show ?thesis using True posn by simp
    next
      case jp: False
      show ?thesis
      proof (cases "(j - 1) div 2 = pos")
        case True
        from ch [of j] j True jp posn show ?thesis by simp
      next
        case False
        from hole_inv_pair [OF h, of j] j False jp show ?thesis by simp
      qed
    qed
    then show ?thesis unfolding res heap_from_def by simp
  qed
qed

lemma siftup_heap:
  assumes lt: "\<forall>a b. lt a b \<longleftrightarrow> k a < k b"
      and heap: "heap_from k (Suc s) xs" and s: "s < length xs"
  shows "heap_from k s (siftup lt xs s) \<and> mset (siftup lt xs s) = mset xs"
proof -
  obtain ys p where loop: "siftup_loop lt (length xs) xs s = (ys, p)"
    by (cases "siftup_loop lt (length xs) xs s")
  have h0: "hole_inv k s xs s"
  proof (rule hole_invI)
    show "s < length xs" by (rule s)
    show "below s s" by (rule below_self)
  next
    fix j
    assume "j < length xs" "0 < j" "s \<le> (j - 1) div 2" "j \<noteq> s" "(j - 1) div 2 \<noteq> s"
    then show "k (xs ! ((j - 1) div 2)) \<le> k (xs ! j)"
      using heap unfolding heap_from_def by simp
  next
    fix j :: nat
    assume "s < s"
    then show "k (xs ! ((s - 1) div 2)) \<le> k (xs ! j)" by simp
  qed
  from siftup_loop_inv [OF lt h0 loop]
  have h: "hole_inv k s ys p" and len: "length ys = length xs" and leaf: "length xs \<le> 2 * p + 1"
    and ms: "\<And>x. mset (ys[p := x]) = mset (xs[s := x])"
    by simp_all
  let ?zs = "ys[p := xs ! s]"
  from hole_inv_pos [OF h] have pn: "p < length ys" by simp
  have res: "siftup lt xs s = siftdown_loop lt (xs ! s) s ?zs p"
    using pn by (simp add: siftup_def loop siftdown_def Let_def)
  have leafc: "\<forall>j < length ?zs. 0 < j \<and> (j - 1) div 2 = p \<longrightarrow> k (xs ! s) \<le> k (?zs ! j)"
  proof (intro allI impI)
    fix j
    assume "j < length ?zs" "0 < j \<and> (j - 1) div 2 = p"
    then have "j < length xs" "2 * p + 1 \<le> j" using len by auto
    with leaf show "k (xs ! s) \<le> k (?zs ! j)" by simp
  qed
  from siftdown_loop_heap [OF lt hole_inv_update [OF h] leafc]
  have "heap_from k s (siftup lt xs s)" by (simp only: res)
  moreover have "mset (siftup lt xs s) = mset xs"
    using pn s by (simp add: res mset_siftdown_loop ms)
  ultimately show ?thesis by simp
qed

lemma length_siftup:
  assumes "\<forall>a b. lt a b \<longleftrightarrow> k a < k b" "heap_from k (Suc s) xs" "s < length xs"
  shows "length (siftup lt xs s) = length xs"
  using siftup_heap [OF assms] by (metis size_mset)

lemma heapify_loop_heap:
  assumes lt: "\<forall>a b. lt a b \<longleftrightarrow> k a < k b"
  shows "heap_from k m xs \<Longrightarrow> m \<le> length xs div 2 \<Longrightarrow>
           heap_from k 0 (foldl (siftup lt) xs (rev [0 ..< m]))
           \<and> mset (foldl (siftup lt) xs (rev [0 ..< m])) = mset xs"
proof (induction m arbitrary: xs)
  case 0
  then show ?case by simp
next
  case (Suc m)
  from Suc.prems(2) have m: "m < length xs" by simp
  from siftup_heap [OF lt Suc.prems(1) m]
  have h: "heap_from k m (siftup lt xs m)" and ms: "mset (siftup lt xs m) = mset xs"
    by simp_all
  from length_siftup [OF lt Suc.prems(1) m] Suc.prems(2)
  have "m \<le> length (siftup lt xs m) div 2" by simp
  from Suc.IH [OF h this] ms show ?case by simp
qed

lemma heap_from_half: "heap_from k (length xs div 2) xs"
  unfolding heap_from_def
proof (intro allI impI)
  fix j
  assume "j < length xs" "0 < j \<and> length xs div 2 \<le> (j - 1) div 2"
  then have False by (cases j) auto
  then show "k (xs ! ((j - 1) div 2)) \<le> k (xs ! j)" ..
qed

lemma heapify_heap:
  assumes "\<forall>a b. lt a b \<longleftrightarrow> k a < k b"
  shows "heap_from k 0 (heapify lt xs) \<and> mset (heapify lt xs) = mset xs"
  unfolding heapify_def
  by (rule heapify_loop_heap [OF assms heap_from_half]) simp

lemma heap_root_least:
  assumes "heap_from k 0 xs"
  shows "j < length xs \<Longrightarrow> k (xs ! 0) \<le> k (xs ! j)"
proof (induction j rule: less_induct)
  case (less j)
  show ?case
  proof (cases "j = 0")
    case True
    then show ?thesis by simp
  next
    case False
    then have j0: "0 < j" by simp
    from parent_less [OF j0] less.prems have p: "(j - 1) div 2 < j" "(j - 1) div 2 < length xs"
      by simp_all
    from less.IH [OF p] have "k (xs ! 0) \<le> k (xs ! ((j - 1) div 2))" .
    also from assms less.prems j0 have "\<dots> \<le> k (xs ! j)"
      unfolding heap_from_def by simp
    finally show ?thesis .
  qed
qed

lemma heappop_heap:
  assumes lt: "\<forall>a b. lt a b \<longleftrightarrow> k a < k b"
      and heap: "heap_from k 0 xs" and ne: "xs \<noteq> []"
  shows "\<exists>x ys. heappop lt xs = Some (x, ys) \<and> mset xs = add_mset x (mset ys)
           \<and> (\<forall>y \<in> set xs. k x \<le> k y) \<and> heap_from k 0 ys"
proof -
  have least: "k (xs ! 0) \<le> k y" if "y \<in> set xs" for y
    using that heap_root_least [OF heap] by (auto simp: in_set_conv_nth)
  show ?thesis
  proof (cases "butlast xs = []")
    case True
    with ne have xs: "xs = [last xs]" by (metis append_butlast_last_id append_Nil)
    then have "xs ! 0 = last xs" by (metis nth_Cons_0)
    with least True ne xs show ?thesis
      by (auto simp: heappop_def Let_def heap_from_def intro: arg_cong [where f = mset])
  next
    case False
    let ?b = "butlast xs"
    let ?zs = "?b[0 := last xs]"
    from False have b0: "0 < length ?b" by (rule length_greater_0_conv [THEN iffD2])
    have res: "heappop lt xs = Some (?b ! 0, siftup lt ?zs 0)"
      using ne False by (simp add: heappop_def Let_def)
    have h1: "heap_from k (Suc 0) ?zs"
      unfolding heap_from_def
    proof (intro allI impI)
      fix j
      assume j: "j < length ?zs" "0 < j \<and> Suc 0 \<le> (j - 1) div 2"
      then have "j < length xs" "j < length ?b" "(j - 1) div 2 < length ?b" "j \<noteq> 0"
        "(j - 1) div 2 \<noteq> 0"
        using parent_less [of j] by auto
      moreover from heap this(1) j(2) have "k (xs ! ((j - 1) div 2)) \<le> k (xs ! j)"
        unfolding heap_from_def by simp
      ultimately show "k (?zs ! ((j - 1) div 2)) \<le> k (?zs ! j)"
        by (simp add: nth_butlast)
    qed
    from siftup_heap [OF lt h1] b0
    have h: "heap_from k 0 (siftup lt ?zs 0)" and ms: "mset (siftup lt ?zs 0) = mset ?zs"
      by simp_all
    have "xs = ?b @ [last xs]" using ne by simp
    then have "mset xs = add_mset (last xs) (mset ?b)" by (metis mset_append add_mset_add_single mset_single_iff_right mset.simps union_mset_add_mset_right add.right_neutral)
    moreover have "mset ?zs = add_mset (last xs) (mset ?b - {#?b ! 0#})"
      using b0 by (simp add: mset_update)
    moreover have "?b ! 0 \<in># mset ?b" using b0 by simp
    ultimately have "mset xs = add_mset (?b ! 0) (mset ?zs)"
      by simp
    moreover have "?b ! 0 = xs ! 0" using b0 by (simp add: nth_butlast)
    ultimately show ?thesis using res h ms least by auto
  qed
qed

subsection \<open>The ranking is a max-priority queue\<close>

lemma edge_lt_key: "\<forall>a b. edge_lt a b \<longleftrightarrow> - edge_value a < - edge_value b"
  by (simp add: edge_lt_def)

lemma MaxHeapWithUpdate_heap:
  "heap_from (\<lambda>e. - edge_value e) 0 (MaxHeapWithUpdate edges)
   \<and> mset (MaxHeapWithUpdate edges) = mset edges"
  unfolding MaxHeapWithUpdate_def by (rule heapify_heap [OF edge_lt_key])

lemma get_max_element_heap:
  assumes "heap_from (\<lambda>e. - edge_value e) 0 heap" and "heap \<noteq> []"
  shows "\<exists>e rest. get_max_element heap = Some (e, rest) \<and> mset heap = add_mset e (mset rest)
           \<and> (\<forall>e' \<in> set heap. edge_value e' \<le> edge_value e)
           \<and> heap_from (\<lambda>e. - edge_value e) 0 rest"
  using heappop_heap [OF edge_lt_key assms] unfolding get_max_element_def by simp

lemma insert_element_heap:
  assumes "heap_from (\<lambda>e. - edge_value e) 0 heap"
  shows "heap_from (\<lambda>e. - edge_value e) 0 (insert_element heap e)"
proof -
  let ?k = "\<lambda>e. - edge_value e"
  let ?xs = "heap @ [e]"
  have "hole_inv ?k 0 ?xs (length heap)"
  proof (rule hole_invI)
    show "length heap < length ?xs" by simp
    show "below 0 (length heap)"
    proof (induction "length heap" arbitrary: heap rule: less_induct)
      case less
      show ?case
      proof (cases "length heap = 0")
        case True
        then show ?thesis by (simp add: below_self)
      next
        case False
        then have pos: "0 < length heap" by simp
        let ?p = "(length heap - 1) div 2"
        from parent_less [OF pos] have "?p < length heap" .
        from less [of "take ?p heap"] this have b: "below 0 ?p" by simp
        have "length heap = 2 * ?p + 1 \<or> length heap = 2 * ?p + 2" using pos by presburger
        with below_left [OF b] below_right [OF b] show ?thesis by auto
      qed
    qed
  next
    fix j
    assume "j < length ?xs" "0 < j" "0 \<le> (j - 1) div 2" "j \<noteq> length heap"
      "(j - 1) div 2 \<noteq> length heap"
    then have j: "j < length heap" "(j - 1) div 2 < length heap"
      using parent_less [of j] by simp_all
    with assms \<open>0 < j\<close> have "?k (heap ! ((j - 1) div 2)) \<le> ?k (heap ! j)"
      unfolding heap_from_def by simp
    with j show "?k (?xs ! ((j - 1) div 2)) \<le> ?k (?xs ! j)" by (simp add: nth_append)
  next
    fix j
    assume "j < length ?xs" "0 < j" "(j - 1) div 2 = length heap"
    with parent_less [of j] have False by simp
    then show "?k (?xs ! ((length heap - 1) div 2)) \<le> ?k (?xs ! j)" ..
  qed
  moreover have "\<forall>j < length ?xs. 0 < j \<and> (j - 1) div 2 = length heap \<longrightarrow> ?k e \<le> ?k (?xs ! j)"
    using parent_less by (metis length_append_singleton less_Suc_eq not_less_iff_gr_or_eq)
  ultimately have "heap_from ?k 0 (siftdown_loop edge_lt e 0 ?xs (length heap))"
    by (rule siftdown_loop_heap [OF edge_lt_key])
  then show ?thesis by (simp add: insert_element_def heappush_def siftdown_def)
qed

lemma pop_n_sorted:
  "heap_from (\<lambda>e. - edge_value e) 0 heap \<Longrightarrow> length heap = n \<Longrightarrow>
     \<exists>es. pop_n n heap = Some es \<and> mset es = mset heap
          \<and> sorted_wrt (\<lambda>a b. edge_value b \<le> edge_value a) es"
proof (induction n arbitrary: heap)
  case 0
  then show ?case by simp
next
  case (Suc n)
  then have ne: "heap \<noteq> []" by auto
  from get_max_element_heap [OF Suc.prems(1) ne] obtain e rest where
    pop: "get_max_element heap = Some (e, rest)" and ms: "mset heap = add_mset e (mset rest)"
    and top: "\<forall>e' \<in> set heap. edge_value e' \<le> edge_value e"
    and h: "heap_from (\<lambda>e. - edge_value e) 0 rest"
    by blast
  from ms Suc.prems(2) have "length rest = n" by (metis size_mset size_add_mset Suc_inject)
  from Suc.IH [OF h this] obtain es where
    es: "pop_n n rest = Some es" "mset es = mset rest"
        "sorted_wrt (\<lambda>a b. edge_value b \<le> edge_value a) es"
    by blast
  have "set es \<subseteq> set heap"
    using es(2) ms by (metis mset_subset_eqD mset_subset_eq_add_mset_cancel set_mset_mset subsetI subset_mset.order_refl union_single_eq_member set_mset_add_mset_insert insertCI)
  with top es pop ms show ?case by auto
qed

subsection \<open>The ranking round\<close>

lemma for_each_append:
  "for_each (\<lambda>e acc. do { e' \<leftarrow> f e; Some (acc @ [e']) }) es acc0 = Some acc \<Longrightarrow>
     \<exists>es'. acc = acc0 @ es' \<and> list_all2 (\<lambda>e e'. f e = Some e') es es'"
proof (induction es arbitrary: acc0)
  case Nil
  then show ?case by simp
next
  case (Cons e es)
  from Cons.prems obtain e' where e': "f e = Some e'"
    and r: "for_each (\<lambda>e acc. do { e' \<leftarrow> f e; Some (acc @ [e']) }) es (acc0 @ [e']) = Some acc"
    by (auto split: option.splits Option.bind_splits)
  from Cons.IH [OF r] obtain es' where "acc = (acc0 @ [e']) @ es'"
    "list_all2 (\<lambda>e e'. f e = Some e') es es'"
    by blast
  with e' show ?case by (intro exI [of _ "e' # es'"]) simp
qed

lemma for_each_routes:
  "for_each (\<lambda>rt acc. do { c \<leftarrow> center rt;
                            for_each (\<lambda>e acc'. do { e' \<leftarrow> f rt c e; Some (acc' @ [e']) })
                              (es rt) acc }) routes acc0 = Some acc \<Longrightarrow>
     \<exists>ess. acc = acc0 @ concat ess
        \<and> list_all2 (\<lambda>rt es'. \<exists>c. center rt = Some c
                         \<and> list_all2 (\<lambda>e e'. f rt c e = Some e') (es rt) es') routes ess"
proof (induction routes arbitrary: acc0)
  case Nil
  then show ?case by simp
next
  case (Cons rt routes)
  from Cons.prems obtain c acc1 where c: "center rt = Some c"
    and inner: "for_each (\<lambda>e acc'. do { e' \<leftarrow> f rt c e; Some (acc' @ [e']) }) (es rt) acc0
                = Some acc1"
    and r: "for_each (\<lambda>rt acc. do { c \<leftarrow> center rt;
                            for_each (\<lambda>e acc'. do { e' \<leftarrow> f rt c e; Some (acc' @ [e']) })
                              (es rt) acc }) routes acc1 = Some acc"
    by (auto split: option.splits Option.bind_splits)
  from for_each_append [OF inner] obtain es' where
    es': "acc1 = acc0 @ es'" "list_all2 (\<lambda>e e'. f rt c e = Some e') (es rt) es'"
    by blast
  from Cons.IH [OF r] obtain ess where
    ess: "acc = acc1 @ concat ess"
      "list_all2 (\<lambda>rt es'. \<exists>c. center rt = Some c
                         \<and> list_all2 (\<lambda>e e'. f rt c e = Some e') (es rt) es') routes ess"
    by blast
  from c es' ess show ?case by (intro exI [of _ "es' # ess"]) auto
qed

lemma compute_edge_width_spec:
  assumes "compute_route_center st (get_nodes r) = Some (cx, cy)"
  shows "compute_edge_width st e cx cy (depot r) = spec_width st r e"
proof -
  from assms have c: "spec_centroid st (get_nodes r) = (cx, cy)"
    by (auto simp: compute_route_center_def spec_centroid_def split: if_splits)
  have len: "(x_coordinate (node_of st (depot r)) - cx)\<^sup>2
               + (y_coordinate (node_of st (depot r)) - cy)\<^sup>2
             = (cx - x_coordinate (node_of st (depot r)))\<^sup>2
               + (cy - y_coordinate (node_of st (depot r)))\<^sup>2"
    by (simp add: power2_commute)
  have num: "(cy - dy) * px - (cx - dx) * py + cx * dy - cy * dx
             = (px - dx) * (cy - dy) - (py - dy) * (cx - dx)" for px py dx dy :: real
    by (simp add: algebra_simps)
  show ?thesis
    unfolding compute_edge_width_def spec_width_def spec_signed_distance_def position_def c
      Let_def fst_conv snd_conv len num
    by (rule refl)
qed

lemma badness_of_edge_spec:
  assumes b: "badness_of_edge ce st center r e = Some e'"
      and c: "(if penalization_criterium ce \<in> {Width, Width_length}
               then map_option Some (compute_route_center st (get_nodes r))
               else Some None) = Some center"
  shows "receives_badness ce st r e e'"
proof -
  from b obtain v where
    v: "compute_edge_value ce st (penalization_criterium ce) e center r = Some v"
    and e': "e' = e\<lparr>edge_value := v / real_of_int (1 + edge_penalties ce (edge_key e))\<rparr>"
    by (auto simp: badness_of_edge_def split: Option.bind_splits if_splits)
  have "spec_edge_score ce st (penalization_criterium ce) r e v"
  proof (cases "penalization_criterium ce")
    case Width
    with c obtain cx cy where cc: "compute_route_center st (get_nodes r) = Some (cx, cy)"
      "center = Some (cx, cy)"
      by auto
    with v Width show ?thesis
      by (simp add: compute_edge_value_def compute_edge_width_value_def spec_edge_score_def
            compute_edge_width_spec [OF cc(1)])
  next
    case Length
    with v show ?thesis
      by (auto simp: compute_edge_value_def compute_edge_length_value_def spec_edge_score_def)
  next
    case Width_length
    with c obtain cx cy where cc: "compute_route_center st (get_nodes r) = Some (cx, cy)"
      "center = Some (cx, cy)"
      by auto
    with v Width_length show ?thesis
      by (auto simp: compute_edge_value_def compute_edge_width_length_value_def
            compute_edge_width_value_def compute_edge_length_value_def spec_edge_score_def
            compute_edge_width_spec [OF cc(1)] split: Option.bind_splits)
  qed
  with e' show ?thesis unfolding receives_badness_def by blast
qed

lemma determine_edge_badness_edges:
  assumes "determine_edge_badness ce st routes = Some ce'"
  shows "\<exists>ess. edge_ranking ce' = Some (MaxHeapWithUpdate (concat ess))
           \<and> list_all2 (\<lambda>rt es'. list_all2 (receives_badness ce st (route_of st rt))
                                     (get_edges (route_of st rt)) es') routes ess"
proof -
  let ?center = "\<lambda>rt. if penalization_criterium ce \<in> {Width, Width_length}
                       then map_option Some (compute_route_center st (get_nodes (route_of st rt)))
                       else Some None"
  from assms obtain edges where
    loop: "for_each (\<lambda>rt acc. do { c \<leftarrow> ?center rt;
             for_each (\<lambda>e acc'. do { e' \<leftarrow> badness_of_edge ce st c (route_of st rt) e;
                                      Some (acc' @ [e']) })
               (get_edges (route_of st rt)) acc }) routes [] = Some edges"
    and r: "edge_ranking ce' = Some (MaxHeapWithUpdate edges)"
    by (auto simp: determine_edge_badness_def split: Option.bind_splits)
  from for_each_routes [OF loop] obtain ess where
    e: "edges = concat ess"
    and a: "list_all2 (\<lambda>rt es'. \<exists>c. ?center rt = Some c
              \<and> list_all2 (\<lambda>e e'. badness_of_edge ce st c (route_of st rt) e = Some e')
                   (get_edges (route_of st rt)) es') routes ess"
    by auto
  have "list_all2 (\<lambda>rt es'. list_all2 (receives_badness ce st (route_of st rt))
                                     (get_edges (route_of st rt)) es') routes ess"
    using a
  proof (rule list_all2_mono)
    fix rt es'
    assume "\<exists>c. ?center rt = Some c
              \<and> list_all2 (\<lambda>e e'. badness_of_edge ce st c (route_of st rt) e = Some e')
                   (get_edges (route_of st rt)) es'"
    then obtain c where c: "?center rt = Some c"
      and l: "list_all2 (\<lambda>e e'. badness_of_edge ce st c (route_of st rt) e = Some e')
                   (get_edges (route_of st rt)) es'"
      by blast
    from l show "list_all2 (receives_badness ce st (route_of st rt))
                   (get_edges (route_of st rt)) es'"
      by (rule list_all2_mono) (rule badness_of_edge_spec [OF _ c])
  qed
  with r e show ?thesis by blast
qed

lemma for_each_total:
  "(\<And>x s. x \<in> set xs \<Longrightarrow> body x s \<noteq> None) \<Longrightarrow> for_each body xs s \<noteq> None"
proof (induction xs arbitrary: s)
  case Nil
  then show ?case by simp
next
  case (Cons x xs)
  from Cons.prems [of x s] obtain s' where "body x s = Some s'" by auto
  with Cons.IH [of s'] Cons.prems show ?case by simp
qed



lemma T_pop_all:
  "pop_n 3 T_ranking
     = Some [\<lparr>first_node = 1, second_node = 2, edge_value = 960\<rparr>,
             \<lparr>first_node = 0, second_node = 1, edge_value = 480\<rparr>,
             \<lparr>first_node = 2, second_node = 0, edge_value = 480\<rparr>]"
  by code_simp

subsection \<open>Segments\<close>

lemma walk_not_Nil [simp]: "walk st d n k \<noteq> []"
  by (cases k) simp_all

lemma walk_snoc:
  "walk st d n (Suc k) = walk st d n k @ [get_neighbour st (last (walk st d n k)) d]"
proof (induction k arbitrary: n)
  case 0
  show ?case by simp
next
  case (Suc k)
  have "walk st d n (Suc (Suc k)) = n # walk st d (get_neighbour st n d) (Suc k)" by simp
  also have "\<dots> = n # (walk st d (get_neighbour st n d) k
                        @ [get_neighbour st (last (walk st d (get_neighbour st n d) k)) d])"
    by (simp only: Suc.IH)
  also have "\<dots> = walk st d n (Suc k)
                   @ [get_neighbour st (last (walk st d n (Suc k))) d]"
    by simp
  finally show ?case .
qed

lemma set_butlast_last: "xs \<noteq> [] \<Longrightarrow> set xs = set (butlast xs) \<union> {last xs}"
  by (induction xs) auto

lemma set_walk_last:
  "set (walk st d n k) = set (butlast (walk st d n k)) \<union> {last (walk st d n k)}"
  by (rule set_butlast_last) simp

lemma seg_inv_init: "seg_inv st p d n [n] n (demand (node_of st n))"
  unfolding seg_inv_def
  by (intro conjI exI [of _ 0]) (simp_all add: total_demand_def)

lemma seg_inv_step:
  assumes "seg_inv st p d origin l e vol" and "\<not> is_depot (node_of st e)"
  shows "seg_inv st p d origin
           (if p then get_neighbour st e d # l else l @ [get_neighbour st e d])
           (get_neighbour st e d) (vol + demand (node_of st (get_neighbour st e d)))"
proof -
  from assms(1) obtain k where
    w: "(if p then rev l else l) = walk st d origin k"
    and e: "last (walk st d origin k) = e"
    and nd: "\<forall>n \<in> set (butlast (walk st d origin k)). \<not> is_depot (node_of st n)"
    and vol: "vol = total_demand st l"
    unfolding seg_inv_def by blast
  let ?l' = "if p then get_neighbour st e d # l else l @ [get_neighbour st e d]"
  have w': "(if p then rev ?l' else ?l') = walk st d origin (Suc k)"
    unfolding walk_snoc e using w by (cases p) simp_all
  have "set (walk st d origin k) = set (butlast (walk st d origin k)) \<union> {e}"
    using set_walk_last [of st d origin k] e by simp
  with nd assms(2)
  have nd': "\<forall>n \<in> set (butlast (walk st d origin (Suc k))). \<not> is_depot (node_of st n)"
    unfolding walk_snoc butlast_snoc by simp
  have "last (walk st d origin (Suc k)) = get_neighbour st e d"
    unfolding walk_snoc e by simp
  moreover have "vol + demand (node_of st (get_neighbour st e d)) = total_demand st ?l'"
    using vol by (simp add: total_demand_def)
  ultimately show ?thesis
    unfolding seg_inv_def using w' nd' by blast
qed

lemma seg_inv_vol: "seg_inv st p d origin l e vol \<Longrightarrow> vol = total_demand st l"
  by (simp add: seg_inv_def)

lemma seg_inv_vol_eq:
  "seg_inv st p d origin l e vol \<Longrightarrow> seg_inv st p d origin l e (total_demand st l)"
  by (simp add: seg_inv_def)

lemma seg_inv_nodes:
  assumes "seg_inv st p d origin l e vol" and "\<not> is_depot (node_of st e)"
  shows "l \<noteq> [] \<and> (\<forall>n \<in> set l. \<not> is_depot (node_of st n))"
proof -
  from assms(1) obtain k where
    w: "(if p then rev l else l) = walk st d origin k"
    and e: "last (walk st d origin k) = e"
    and nd: "\<forall>n \<in> set (butlast (walk st d origin k)). \<not> is_depot (node_of st n)"
    unfolding seg_inv_def by blast
  have "set (walk st d origin k) = set (butlast (walk st d origin k)) \<union> {e}"
    using set_walk_last [of st d origin k] e by simp
  with nd assms(2) have "\<forall>n \<in> set (walk st d origin k). \<not> is_depot (node_of st n)" by simp
  moreover have "set l = set (walk st d origin k)"
  proof (cases p)
    case True
    with w have "rev l = walk st d origin k" by simp
    then have "set (rev l) = set (walk st d origin k)" by (rule arg_cong)
    then show ?thesis by simp
  next
    case False
    with w show ?thesis by simp
  qed
  moreover from this have "l \<noteq> []" by (cases l) simp_all
  ultimately show ?thesis by simp
qed

subsection \<open>What the search emits\<close>

lemma emit_step:
  assumes block:
    "(if is_feasible ce (volume (route_of st (route (node_of st c2))) - v2 + v1)
      then
        do {
          a \<leftarrow> get_distance ce st e1 (get_neighbour st e1 d1);
          b \<leftarrow> get_distance ce st e2 (get_neighbour st e2 d2);
          c \<leftarrow> get_distance ce st e1 (get_neighbour st e2 d2);
          d \<leftarrow> get_distance ce st e2 (get_neighbour st e1 d1);
          (if first + (a + b - c - d) > 0
           then Some (cm @
                  [\<lparr>segment1 = l1, segment2 = l2,
                    segment1_insert_after = (if d2 = 1 then c2 else get_neighbour st e2 d2),
                    segment2_insert_after = (if d1 = 1 then c1 else get_neighbour st e1 d1),
                    improvement = first + (a + b - c - d),
                    start_node = s\<rparr>])
           else Some cm)
        }
      else Some cm) = Some cm'"
    and s2: "seg_inv st (prepend2 d1 d2) d2 (get_neighbour st c2 d2) l2 e2 v2"
    and nd2: "\<not> is_depot (node_of st e2)"
    and f1: "is_feasible ce (volume (route_of st (route (node_of st s))) - v1 + v2)"
    and s1: "seg_inv st (prepend1 d1 d2) d1 s l1 e1 v1"
    and nd1: "\<not> is_depot (node_of st e1)"
    and r: "route (node_of st c2) \<noteq> route (node_of st s)"
    and c1: "c1 = (if d1 = 1 then prev (node_of st s) else nxt (node_of st s))"
    and first: "cross_improvement ce st s c1 (get_neighbour st c2 d2) c2 = Some first"
    and pos: "0 < first"
    and m: "m \<in> set cm'"
  shows "m \<in> set cm \<or> emitted ce st s d1 d2 c2 m"
proof (cases "m \<in> set cm")
  case True
  then show ?thesis ..
next
  case False
  with block m obtain a b c d where
    f2: "is_feasible ce (volume (route_of st (route (node_of st c2))) - v2 + v1)"
    and a: "get_distance ce st e1 (get_neighbour st e1 d1) = Some a"
    and b: "get_distance ce st e2 (get_neighbour st e2 d2) = Some b"
    and c: "get_distance ce st e1 (get_neighbour st e2 d2) = Some c"
    and d: "get_distance ce st e2 (get_neighbour st e1 d1) = Some d"
    and imp: "first + (a + b - c - d) > 0"
    and mm: "m = \<lparr>segment1 = l1, segment2 = l2,
                    segment1_insert_after = (if d2 = 1 then c2 else get_neighbour st e2 d2),
                    segment2_insert_after = (if d1 = 1 then c1 else get_neighbour st e1 d1),
                    improvement = first + (a + b - c - d),
                    start_node = s\<rparr>"
    by (auto split: if_splits Option.bind_splits)
  have v: "v1 = total_demand st l1" "v2 = total_demand st l2"
    using seg_inv_vol [OF s1] seg_inv_vol [OF s2] by simp_all
  have d2: "cross_improvement ce st e1 (get_neighbour st e1 d1) e2 (get_neighbour st e2 d2)
            = Some (a + b - c - d)"
    by (simp add: cross_improvement_def a b c d)
  have "emitted ce st s d1 d2 c2 m"
    unfolding emitted_def
  proof (intro exI conjI)
    show "start_node m = s" by (simp add: mm)
    show "route (node_of st c2) \<noteq> route (node_of st s)" by (rule r)
    show "seg_inv st (prepend1 d1 d2) d1 s (segment1 m) e1 (total_demand st (segment1 m))"
      using seg_inv_vol_eq [OF s1] by (simp add: mm)
    show "\<not> is_depot (node_of st e1)" by (rule nd1)
    show "seg_inv st (prepend2 d1 d2) d2 (get_neighbour st c2 d2) (segment2 m) e2
            (total_demand st (segment2 m))"
      using seg_inv_vol_eq [OF s2] by (simp add: mm)
    show "\<not> is_depot (node_of st e2)" by (rule nd2)
    show "is_feasible ce (volume (route_of st (route (node_of st s)))
                           - total_demand st (segment1 m) + total_demand st (segment2 m))"
      using f1 by (simp add: mm v)
    show "is_feasible ce (volume (route_of st (route (node_of st c2)))
                           - total_demand st (segment2 m) + total_demand st (segment1 m))"
      using f2 by (simp add: mm v)
    show "cross_improvement ce st s
             (if d1 = 1 then prev (node_of st s) else nxt (node_of st s))
             (get_neighbour st c2 d2) c2 = Some first"
      using first by (simp only: c1)
    show "cross_improvement ce st e1 (get_neighbour st e1 d1) e2 (get_neighbour st e2 d2)
             = Some (a + b - c - d)"
      by (rule d2)
    show "0 < first" by (rule pos)
    show "improvement m = first + (a + b - c - d)" by (simp add: mm)
    show "0 < improvement m" using imp by (simp add: mm)
    show "segment1_insert_after m = (if d2 = 1 then c2 else get_neighbour st e2 d2)"
      by (simp add: mm)
    show "segment2_insert_after m
             = (if d1 = 1 then (if d1 = 1 then prev (node_of st s) else nxt (node_of st s))
                else get_neighbour st e1 d1)"
      by (simp add: mm c1)
  qed
  then show ?thesis ..
qed

lemma segment2_loop_step:
  assumes IH: "\<And>ce st s d1 d2 c1 c2 first e1 l1 v1 e2 l2 v2 cm y.
                 loop ce st s d1 d2 c1 c2 first e1 l1 v1 e2 l2 v2 cm = Some y \<Longrightarrow>
                 segment2_loop_post ce st s d1 d2 c1 c2 first e1 l1 v1 e2 l2 v2 cm y"
      and body:
        "(if \<not> is_depot (node_of st e2)
             \<and> is_feasible ce (volume (route_of st (route (node_of st s))) - v1 + v2)
          then
            do {
              cm' \<leftarrow>
                (if is_feasible ce (volume (route_of st (route (node_of st c2))) - v2 + v1)
                 then
                   do {
                     a \<leftarrow> get_distance ce st e1 (get_neighbour st e1 d1);
                     b \<leftarrow> get_distance ce st e2 (get_neighbour st e2 d2);
                     c \<leftarrow> get_distance ce st e1 (get_neighbour st e2 d2);
                     d \<leftarrow> get_distance ce st e2 (get_neighbour st e1 d1);
                     (if first + (a + b - c - d) > 0
                      then Some (cm @
                             [\<lparr>segment1 = l1, segment2 = l2,
                               segment1_insert_after =
                                 (if d2 = 1 then c2 else get_neighbour st e2 d2),
                               segment2_insert_after =
                                 (if d1 = 1 then c1 else get_neighbour st e1 d1),
                               improvement = first + (a + b - c - d),
                               start_node = s\<rparr>])
                      else Some cm)
                   }
                 else Some cm);
              loop ce st s d1 d2 c1 c2 first e1 l1 v1
                (get_neighbour st e2 d2)
                (if (d2 = 1 \<and> d1 = 0) \<or> (d1 + d2 = 0)
                 then get_neighbour st e2 d2 # l2 else l2 @ [get_neighbour st e2 d2])
                (v2 + demand (node_of st (get_neighbour st e2 d2)))
                cm'
            }
          else Some cm) = Some res"
  shows "segment2_loop_post ce st s d1 d2 c1 c2 first e1 l1 v1 e2 l2 v2 cm res"
  unfolding segment2_loop_post_def
proof (intro impI ballI)
  fix m
  assume s2: "seg_inv st (prepend2 d1 d2) d2 (get_neighbour st c2 d2) l2 e2 v2"
    and s1: "seg_inv st (prepend1 d1 d2) d1 s l1 e1 v1"
    and nd1: "\<not> is_depot (node_of st e1)"
    and r: "route (node_of st c2) \<noteq> route (node_of st s)"
    and c1: "c1 = (if d1 = 1 then prev (node_of st s) else nxt (node_of st s))"
    and first: "cross_improvement ce st s c1 (get_neighbour st c2 d2) c2 = Some first"
    and pos: "0 < first"
    and m: "m \<in> set res"
  show "m \<in> set cm \<or> emitted ce st s d1 d2 c2 m"
  proof (cases "\<not> is_depot (node_of st e2)
                \<and> is_feasible ce (volume (route_of st (route (node_of st s))) - v1 + v2)")
    case False
    with body have "res = cm" by (simp only: if_False) simp
    with m show ?thesis by simp
  next
    case True
    then have nd2: "\<not> is_depot (node_of st e2)"
      and f1: "is_feasible ce (volume (route_of st (route (node_of st s))) - v1 + v2)"
      by simp_all
    from body obtain cm' where
      block: "(if is_feasible ce (volume (route_of st (route (node_of st c2))) - v2 + v1)
        then
          do {
            a \<leftarrow> get_distance ce st e1 (get_neighbour st e1 d1);
            b \<leftarrow> get_distance ce st e2 (get_neighbour st e2 d2);
            c \<leftarrow> get_distance ce st e1 (get_neighbour st e2 d2);
            d \<leftarrow> get_distance ce st e2 (get_neighbour st e1 d1);
            (if first + (a + b - c - d) > 0
             then Some (cm @
                    [\<lparr>segment1 = l1, segment2 = l2,
                      segment1_insert_after = (if d2 = 1 then c2 else get_neighbour st e2 d2),
                      segment2_insert_after = (if d1 = 1 then c1 else get_neighbour st e1 d1),
                      improvement = first + (a + b - c - d),
                      start_node = s\<rparr>])
             else Some cm)
          }
        else Some cm) = Some cm'"
      and rec: "loop ce st s d1 d2 c1 c2 first e1 l1 v1
                  (get_neighbour st e2 d2)
                  (if (d2 = 1 \<and> d1 = 0) \<or> (d1 + d2 = 0)
                   then get_neighbour st e2 d2 # l2 else l2 @ [get_neighbour st e2 d2])
                  (v2 + demand (node_of st (get_neighbour st e2 d2))) cm' = Some res"
      unfolding if_P [OF True] bind_eq_Some_conv by blast
    have s2': "seg_inv st (prepend2 d1 d2) d2 (get_neighbour st c2 d2)
                 (if (d2 = 1 \<and> d1 = 0) \<or> (d1 + d2 = 0)
                  then get_neighbour st e2 d2 # l2 else l2 @ [get_neighbour st e2 d2])
                 (get_neighbour st e2 d2) (v2 + demand (node_of st (get_neighbour st e2 d2)))"
      using seg_inv_step [OF s2 nd2] by (simp only: prepend2_def)
    from IH [OF rec] s2' s1 nd1 r c1 first pos m
    have "m \<in> set cm' \<or> emitted ce st s d1 d2 c2 m"
      unfolding segment2_loop_post_def by blast
    then show ?thesis
    proof
      assume "m \<in> set cm'"
      from emit_step [OF block s2 nd2 f1 s1 nd1 r c1 first pos this]
      show ?thesis .
    next
      assume "emitted ce st s d1 d2 c2 m"
      then show ?thesis ..
    qed
  qed
qed

lemma segment2_loop_emits:
  assumes "segment2_loop ce st s d1 d2 c1 c2 first e1 l1 v1 e2 l2 v2 cm = Some res"
  shows "segment2_loop_post ce st s d1 d2 c1 c2 first e1 l1 v1 e2 l2 v2 cm res"
  by (rule segment2_loop.raw_induct [where P = segment2_loop_post, OF _ assms])
     (rule segment2_loop_step)

lemma segment1_loop_step:
  assumes IH: "\<And>ce st s d1 d2 c1 c2 first s2 e1 l1 v1 cm y.
                 loop ce st s d1 d2 c1 c2 first s2 e1 l1 v1 cm = Some y \<Longrightarrow>
                 segment1_loop_post ce st s d1 d2 c1 c2 first s2 e1 l1 v1 cm y"
      and body:
        "(if \<not> is_depot (node_of st e1)
          then
            do {
              cm' \<leftarrow> segment2_loop ce st s d1 d2 c1 c2 first e1 l1 v1
                       s2 [s2] (demand (node_of st s2)) cm;
              loop ce st s d1 d2 c1 c2 first s2
                (get_neighbour st e1 d1)
                (if (d1 = 1 \<and> d2 = 0) \<or> (d1 + d2 = 0)
                 then get_neighbour st e1 d1 # l1 else l1 @ [get_neighbour st e1 d1])
                (v1 + demand (node_of st (get_neighbour st e1 d1)))
                cm'
            }
          else Some cm) = Some res"
  shows "segment1_loop_post ce st s d1 d2 c1 c2 first s2 e1 l1 v1 cm res"
  unfolding segment1_loop_post_def
proof (intro impI ballI)
  fix m
  assume s1: "seg_inv st (prepend1 d1 d2) d1 s l1 e1 v1"
    and s2: "s2 = get_neighbour st c2 d2"
    and r: "route (node_of st c2) \<noteq> route (node_of st s)"
    and c1: "c1 = (if d1 = 1 then prev (node_of st s) else nxt (node_of st s))"
    and first: "cross_improvement ce st s c1 (get_neighbour st c2 d2) c2 = Some first"
    and pos: "0 < first"
    and m: "m \<in> set res"
  show "m \<in> set cm \<or> emitted ce st s d1 d2 c2 m"
  proof (cases "\<not> is_depot (node_of st e1)")
    case False
    with body have "res = cm" by (simp only: if_False) simp
    with m show ?thesis by simp
  next
    case True
    from body obtain cm' where
      inner: "segment2_loop ce st s d1 d2 c1 c2 first e1 l1 v1
                s2 [s2] (demand (node_of st s2)) cm = Some cm'"
      and rec: "loop ce st s d1 d2 c1 c2 first s2
                  (get_neighbour st e1 d1)
                  (if (d1 = 1 \<and> d2 = 0) \<or> (d1 + d2 = 0)
                   then get_neighbour st e1 d1 # l1 else l1 @ [get_neighbour st e1 d1])
                  (v1 + demand (node_of st (get_neighbour st e1 d1))) cm' = Some res"
      unfolding if_P [OF True] bind_eq_Some_conv by blast
    have s1': "seg_inv st (prepend1 d1 d2) d1 s
                 (if (d1 = 1 \<and> d2 = 0) \<or> (d1 + d2 = 0)
                  then get_neighbour st e1 d1 # l1 else l1 @ [get_neighbour st e1 d1])
                 (get_neighbour st e1 d1) (v1 + demand (node_of st (get_neighbour st e1 d1)))"
      using seg_inv_step [OF s1 True] by (simp only: prepend1_def)
    from IH [OF rec] s1' s2 r c1 first pos m
    have "m \<in> set cm' \<or> emitted ce st s d1 d2 c2 m"
      unfolding segment1_loop_post_def by blast
    then show ?thesis
    proof
      assume m': "m \<in> set cm'"
      have i2: "seg_inv st (prepend2 d1 d2) d2 (get_neighbour st c2 d2) [s2] s2
                  (demand (node_of st s2))"
        unfolding s2 by (rule seg_inv_init)
      from segment2_loop_emits [OF inner] i2 s1 True r c1 first pos m'
      show ?thesis unfolding segment2_loop_post_def by blast
    next
      assume "emitted ce st s d1 d2 c2 m"
      then show ?thesis ..
    qed
  qed
qed

lemma segment1_loop_emits:
  assumes "segment1_loop ce st s d1 d2 c1 c2 first s2 e1 l1 v1 cm = Some res"
  shows "segment1_loop_post ce st s d1 d2 c1 c2 first s2 e1 l1 v1 cm res"
  by (rule segment1_loop.raw_induct [where P = segment1_loop_post, OF _ assms])
     (rule segment1_loop_step)

lemma search_from_neighbour_emits:
  assumes run: "search_from_neighbour ce st s d1 d2
                  (if d1 = 1 then prev (node_of st s) else nxt (node_of st s)) c2 cm = Some res"
      and m: "m \<in> set res"
  shows "m \<in> set cm \<or> emitted ce st s d1 d2 c2 m"
proof (cases "route (node_of st c2) \<noteq> route (node_of st s)
              \<and> \<not> is_depot (node_of st (get_neighbour st c2 d2))")
  case False
  with run have "res = cm"
    by (auto simp: search_from_neighbour_def Let_def split: if_splits)
  with m show ?thesis by simp
next
  case True
  let ?c1 = "if d1 = 1 then prev (node_of st s) else nxt (node_of st s)"
  let ?s2 = "get_neighbour st c2 d2"
  from run True obtain a b c d where
    a: "get_distance ce st s ?c1 = Some a"
    and b: "get_distance ce st ?s2 c2 = Some b"
    and c: "get_distance ce st s c2 = Some c"
    and d: "get_distance ce st ?s2 ?c1 = Some d"
    and rest: "(if a + b - c - d > 0
                then segment1_loop ce st s d1 d2 ?c1 c2 (a + b - c - d) ?s2
                       s [s] (demand (node_of st s)) cm
                else Some cm) = Some res"
    unfolding search_from_neighbour_def Let_def
    by (simp add: bind_eq_Some_conv) blast
  show ?thesis
  proof (cases "a + b - c - d > 0")
    case False
    with rest m show ?thesis by simp
  next
    case pos: True
    with rest have loop: "segment1_loop ce st s d1 d2 ?c1 c2 (a + b - c - d) ?s2
                       s [s] (demand (node_of st s)) cm = Some res"
      by simp
    have first: "cross_improvement ce st s ?c1 ?s2 c2 = Some (a + b - c - d)"
      by (simp add: cross_improvement_def a b c d)
    have i1: "seg_inv st (prepend1 d1 d2) d1 s [s] s (demand (node_of st s))"
      by (rule seg_inv_init)
    from segment1_loop_emits [OF loop] i1 True first pos m
    show ?thesis unfolding segment1_loop_post_def by blast
  qed
qed

lemma for_each_emits:
  assumes run: "for_each body xs cm = Some res"
      and step: "\<And>x acc acc' m. x \<in> set xs \<Longrightarrow> body x acc = Some acc' \<Longrightarrow> m \<in> set acc'
                   \<Longrightarrow> m \<in> set acc \<or> Q x m"
      and m: "m \<in> set res"
  shows "m \<in> set cm \<or> (\<exists>x \<in> set xs. Q x m)"
  using run step m
proof (induction xs arbitrary: cm)
  case Nil
  then show ?case by simp
next
  case (Cons x xs)
  from Cons.prems(1) obtain acc where b: "body x cm = Some acc"
    and r: "for_each body xs acc = Some res"
    by (auto split: option.splits)
  have "m \<in> set acc \<or> (\<exists>x \<in> set xs. Q x m)"
  proof (rule Cons.IH [OF r _ Cons.prems(3)])
    fix y acc1 acc2 m'
    assume "y \<in> set xs" "body y acc1 = Some acc2" "m' \<in> set acc2"
    then show "m' \<in> set acc1 \<or> Q y m'" using Cons.prems(2) [of y acc1 acc2 m'] by simp
  qed
  then show ?case
  proof
    assume "m \<in> set acc"
    from Cons.prems(2) [OF _ b this] show ?thesis by auto
  next
    assume "\<exists>x \<in> set xs. Q x m"
    then show ?thesis by auto
  qed
qed

lemma search_direction_pair_emits:
  assumes run: "do {
           let route1_segment_connection_start =
                 (if d1 = 1 then prev (node_of st s) else nxt (node_of st s));
           neighbours \<leftarrow> get_neighborhood ce s;
           for_each (\<lambda>route2_segment_connection_start candidate_moves.
               search_from_neighbour ce st s d1 d2
                 route1_segment_connection_start route2_segment_connection_start
                 candidate_moves)
             neighbours cm
         } = Some res"
      and m: "m \<in> set res"
  shows "m \<in> set cm \<or> (\<exists>neighbours. get_neighborhood ce s = Some neighbours
              \<and> (\<exists>c2 \<in> set neighbours. emitted ce st s d1 d2 c2 m))"
proof -
  from run obtain neighbours where
    n: "get_neighborhood ce s = Some neighbours"
    and loop: "for_each (\<lambda>c2 candidate_moves.
                 search_from_neighbour ce st s d1 d2
                   (if d1 = 1 then prev (node_of st s) else nxt (node_of st s)) c2
                   candidate_moves) neighbours cm = Some res"
    unfolding Let_def bind_eq_Some_conv by blast
  have "m \<in> set cm \<or> (\<exists>c2 \<in> set neighbours. emitted ce st s d1 d2 c2 m)"
  proof (rule for_each_emits [OF loop _ m])
    fix c2 acc acc' m'
    assume "search_from_neighbour ce st s d1 d2
              (if d1 = 1 then prev (node_of st s) else nxt (node_of st s)) c2 acc = Some acc'"
      and "m' \<in> set acc'"
    then show "m' \<in> set acc \<or> emitted ce st s d1 d2 c2 m'"
      by (rule search_from_neighbour_emits)
  qed
  with n show ?thesis by blast
qed

lemma search_cross_exchanges_from_emits:
  assumes run: "search_cross_exchanges_from ce st s dirs1 dirs2 = Some moves"
      and m: "m \<in> set moves"
  shows "\<exists>d1 \<in> set dirs1. \<exists>d2 \<in> set dirs2. \<exists>neighbours.
           get_neighborhood ce s = Some neighbours
           \<and> (\<exists>c2 \<in> set neighbours. emitted ce st s d1 d2 c2 m)"
proof -
  let ?Q = "\<lambda>d1 d2 m. \<exists>neighbours. get_neighborhood ce s = Some neighbours
              \<and> (\<exists>c2 \<in> set neighbours. emitted ce st s d1 d2 c2 m)"
  have "m \<in> set [] \<or> (\<exists>d1 \<in> set dirs1. \<exists>d2 \<in> set dirs2. ?Q d1 d2 m)"
  proof (rule for_each_emits [OF run [unfolded search_cross_exchanges_from_def] _ m])
    fix d1 acc acc' m'
    assume inner: "for_each (\<lambda>segment2_direction candidate_moves.
         do {
           let route1_segment_connection_start =
                 (if d1 = 1 then prev (node_of st s) else nxt (node_of st s));
           neighbours \<leftarrow> get_neighborhood ce s;
           for_each (\<lambda>route2_segment_connection_start candidate_moves.
               search_from_neighbour ce st s d1 segment2_direction
                 route1_segment_connection_start route2_segment_connection_start
                 candidate_moves)
             neighbours candidate_moves
         }) dirs2 acc = Some acc'"
      and m': "m' \<in> set acc'"
    show "m' \<in> set acc \<or> (\<exists>d2 \<in> set dirs2. ?Q d1 d2 m')"
    proof (rule for_each_emits [OF inner _ m'])
      fix d2 acc1 acc2 m''
      assume "do {
           let route1_segment_connection_start =
                 (if d1 = 1 then prev (node_of st s) else nxt (node_of st s));
           neighbours \<leftarrow> get_neighborhood ce s;
           for_each (\<lambda>route2_segment_connection_start candidate_moves.
               search_from_neighbour ce st s d1 d2
                 route1_segment_connection_start route2_segment_connection_start
                 candidate_moves)
             neighbours acc1
         } = Some acc2"
        and "m'' \<in> set acc2"
      then show "m'' \<in> set acc1 \<or> ?Q d1 d2 m''"
        by (rule search_direction_pair_emits)
    qed
  qed
  then show ?thesis by simp
qed

lemma seg_inv_end:
  assumes "seg_inv st p d origin l e vol"
  shows "e = (if p then hd l else last l) \<and> origin = (if p then last l else hd l)"
proof -
  from assms obtain k where
    w: "(if p then rev l else l) = walk st d origin k"
    and e: "last (walk st d origin k) = e"
    unfolding seg_inv_def by blast
  have h: "hd (walk st d origin k) = origin" by (cases k) simp_all
  show ?thesis
  proof (cases p)
    case True
    with w have r: "rev l = walk st d origin k" by simp
    then have "l \<noteq> []" by (cases l) (simp_all del: walk.simps, metis walk_not_Nil)
    with r e h True show ?thesis by (metis hd_rev last_rev)
  next
    case False
    with w e h show ?thesis by simp
  qed
qed

lemma get_neighbour_route:
  "links_in_route st \<Longrightarrow> route (node_of st (get_neighbour st n d)) = route (node_of st n)"
  by (simp add: links_in_route_def get_neighbour_def)

lemma walk_route:
  assumes "links_in_route st"
  shows "n \<in> set (walk st d origin k) \<Longrightarrow> route (node_of st n) = route (node_of st origin)"
proof (induction k arbitrary: origin)
  case 0
  then show ?case by simp
next
  case (Suc k)
  then show ?case using get_neighbour_route [OF assms, of origin d] by auto
qed

lemma seg_inv_route:
  assumes "links_in_route st" and "seg_inv st p d origin l e vol" and "n \<in> set l"
  shows "route (node_of st n) = route (node_of st origin)"
proof -
  from assms(2) obtain k where w: "(if p then rev l else l) = walk st d origin k"
    unfolding seg_inv_def by blast
  then have "set (if p then rev l else l) = set (walk st d origin k)" by (rule arg_cong)
  then have "set l = set (walk st d origin k)" by (simp split: if_splits)
  with assms(3) walk_route [OF assms(1)] show ?thesis by simp
qed

lemma for_each_concat:
  "for_each (\<lambda>x acc. do { ys \<leftarrow> f x; Some (acc @ ys) }) xs acc0 = Some acc \<Longrightarrow>
     \<exists>yss. acc = acc0 @ concat yss \<and> list_all2 (\<lambda>x ys. f x = Some ys) xs yss"
proof (induction xs arbitrary: acc0)
  case Nil
  then show ?case by simp
next
  case (Cons x xs)
  from Cons.prems obtain ys where ys: "f x = Some ys"
    and r: "for_each (\<lambda>x acc. do { ys \<leftarrow> f x; Some (acc @ ys) }) xs (acc0 @ ys) = Some acc"
    by (auto split: option.splits Option.bind_splits)
  from Cons.IH [OF r] obtain yss where "acc = (acc0 @ ys) @ concat yss"
    "list_all2 (\<lambda>x ys. f x = Some ys) xs yss"
    by blast
  with ys show ?case by (intro exI [of _ "ys # yss"]) simp
qed

subsection \<open>Scenario X, evaluated\<close>

lemma X_search_a:
  "search_cross_exchanges_from X_ce X_store 1 [0, 1] [0, 1]
     = Some [\<lparr>segment1 = [1], segment2 = [4], segment1_insert_after = 5,
              segment2_insert_after = 0, improvement = 15, start_node = 1\<rparr>]"
  by code_simp

lemma X_search_all:
  "search_cross_exchanges X_ce X_store [1, 2, 4, 5]
     = Some
        [\<lparr>segment1 = [4], segment2 = [1], segment1_insert_after = 2,
          segment2_insert_after = 5, improvement = 21, start_node = 4\<rparr>,
         \<lparr>segment1 = [1], segment2 = [4], segment1_insert_after = 5,
          segment2_insert_after = 0, improvement = 15, start_node = 1\<rparr>,
         \<lparr>segment1 = [2], segment2 = [5], segment1_insert_after = 3,
          segment2_insert_after = 1, improvement = 14, start_node = 2\<rparr>,
         \<lparr>segment1 = [5], segment2 = [2], segment1_insert_after = 0,
          segment2_insert_after = 3, improvement = 8, start_node = 5\<rparr>,
         \<lparr>segment1 = [4, 5], segment2 = [1], segment1_insert_after = 2,
          segment2_insert_after = 3, improvement = 6, start_node = 4\<rparr>,
         \<lparr>segment1 = [4, 5], segment2 = [2], segment1_insert_after = 0,
          segment2_insert_after = 4, improvement = 6, start_node = 5\<rparr>,
         \<lparr>segment1 = [2], segment2 = [4], segment1_insert_after = 5,
          segment2_insert_after = 0, improvement = 5, start_node = 2\<rparr>,
         \<lparr>segment1 = [5], segment2 = [2], segment1_insert_after = 0,
          segment2_insert_after = 4, improvement = 4, start_node = 5\<rparr>]"
  by code_simp

lemma X_links_in_route: "links_in_route X_store"
  unfolding links_in_route_def X_store_def by (simp add: X_node_def)

subsection \<open>The search returns\<close>

lemma walk_direction: "d \<noteq> 0 \<Longrightarrow> walk st d n k = walk st 1 n k"
  by (induction k arbitrary: n) (simp_all add: get_neighbour_def)

lemma search_ready_reaches:
  assumes "search_ready ce st ns" and "n \<in> set ns"
  shows "\<exists>k. is_depot (node_of st (last (walk st d n k)))"
proof (cases "d = 0")
  case True
  with assms show ?thesis unfolding search_ready_def by blast
next
  case False
  from assms obtain k where "is_depot (node_of st (last (walk st 1 n k)))"
    unfolding search_ready_def by blast
  with walk_direction [OF False] show ?thesis by auto
qed

lemma search_ready_neighbour:
  "search_ready ce st ns \<Longrightarrow> n \<in> set ns \<Longrightarrow> get_neighbour st n d \<in> set ns"
  unfolding search_ready_def get_neighbour_def by simp

lemma search_ready_distance:
  "search_ready ce st ns \<Longrightarrow> a \<in> set ns \<Longrightarrow> b \<in> set ns \<Longrightarrow>
     \<exists>v. get_distance ce st a b = Some v"
  unfolding search_ready_def by blast

lemma search_ready_neighborhood:
  "search_ready ce st ns \<Longrightarrow> n \<in> set ns \<Longrightarrow> \<not> is_depot (node_of st n) \<Longrightarrow>
     \<exists>neighbours. get_neighborhood ce n = Some neighbours \<and> set neighbours \<subseteq> set ns"
  unfolding search_ready_def by (auto split: option.splits)

lemma segment2_loop_total:
  assumes ready: "search_ready ce st ns" and e1: "e1 \<in> set ns"
  shows "is_depot (node_of st (last (walk st d2 e2 k))) \<Longrightarrow> e2 \<in> set ns \<Longrightarrow>
         segment2_loop ce st s d1 d2 c1 c2 first e1 l1 v1 e2 l2 v2 cm \<noteq> None"
proof (induction k arbitrary: e2 l2 v2 cm)
  case 0
  then have "is_depot (node_of st e2)" by simp
  then show ?case by (subst segment2_loop.simps) simp
next
  case (Suc k)
  have n2: "get_neighbour st e2 d2 \<in> set ns"
    by (rule search_ready_neighbour [OF ready Suc.prems(2)])
  have n1: "get_neighbour st e1 d1 \<in> set ns"
    by (rule search_ready_neighbour [OF ready e1])
  from Suc.prems(1) have "is_depot (node_of st (last (walk st d2 (get_neighbour st e2 d2) k)))"
    by simp
  note IH = Suc.IH [OF this n2]
  from search_ready_distance [OF ready e1 n1] obtain a where
    a: "get_distance ce st e1 (get_neighbour st e1 d1) = Some a" ..
  from search_ready_distance [OF ready Suc.prems(2) n2] obtain b where
    b: "get_distance ce st e2 (get_neighbour st e2 d2) = Some b" ..
  from search_ready_distance [OF ready e1 n2] obtain c where
    c: "get_distance ce st e1 (get_neighbour st e2 d2) = Some c" ..
  from search_ready_distance [OF ready Suc.prems(2) n1] obtain d where
    d: "get_distance ce st e2 (get_neighbour st e1 d1) = Some d" ..
  show ?case
    apply (subst segment2_loop.simps)
    using IH apply (auto simp: a b c d)
    done
qed

lemma segment1_loop_total:
  assumes ready: "search_ready ce st ns" and s2: "s2 \<in> set ns"
  shows "is_depot (node_of st (last (walk st d1 e1 k))) \<Longrightarrow> e1 \<in> set ns \<Longrightarrow>
         segment1_loop ce st s d1 d2 c1 c2 first s2 e1 l1 v1 cm \<noteq> None"
proof (induction k arbitrary: e1 l1 v1 cm)
  case 0
  then have "is_depot (node_of st e1)" by simp
  then show ?case by (subst segment1_loop.simps) simp
next
  case (Suc k)
  have n1: "get_neighbour st e1 d1 \<in> set ns"
    by (rule search_ready_neighbour [OF ready Suc.prems(2)])
  from Suc.prems(1) have "is_depot (node_of st (last (walk st d1 (get_neighbour st e1 d1) k)))"
    by simp
  note IH = Suc.IH [OF this n1]
  from search_ready_reaches [OF ready s2, of d2] obtain k2 where
    "is_depot (node_of st (last (walk st d2 s2 k2)))" ..
  from segment2_loop_total [OF ready Suc.prems(2) this s2] obtain cm' where
    "segment2_loop ce st s d1 d2 c1 c2 first e1 l1 v1 s2 [s2] (demand (node_of st s2)) cm
       = Some cm'"
    by blast
  then show ?case
    apply (subst segment1_loop.simps)
    using IH apply auto
    done
qed

lemma search_from_neighbour_total:
  assumes ready: "search_ready ce st ns"
      and s: "s \<in> set ns" and c1: "c1 \<in> set ns" and c2: "c2 \<in> set ns"
  shows "search_from_neighbour ce st s d1 d2 c1 c2 cm \<noteq> None"
proof -
  have n2: "get_neighbour st c2 d2 \<in> set ns"
    by (rule search_ready_neighbour [OF ready c2])
  from search_ready_distance [OF ready s c1] obtain a where
    a: "get_distance ce st s c1 = Some a" ..
  from search_ready_distance [OF ready n2 c2] obtain b where
    b: "get_distance ce st (get_neighbour st c2 d2) c2 = Some b" ..
  from search_ready_distance [OF ready s c2] obtain c where
    c: "get_distance ce st s c2 = Some c" ..
  from search_ready_distance [OF ready n2 c1] obtain d where
    d: "get_distance ce st (get_neighbour st c2 d2) c1 = Some d" ..
  from search_ready_reaches [OF ready s, of d1] obtain k where
    "is_depot (node_of st (last (walk st d1 s k)))" ..
  note loop = segment1_loop_total [OF ready n2 this s]
  show ?thesis
    unfolding search_from_neighbour_def Let_def using loop by (auto simp: a b c d)
qed

lemma search_cross_exchanges_from_total:
  assumes ready: "search_ready ce st ns"
      and s: "s \<in> set ns" and nd: "\<not> is_depot (node_of st s)"
  shows "search_cross_exchanges_from ce st s dirs1 dirs2 \<noteq> None"
proof -
  from search_ready_neighborhood [OF ready s nd] obtain neighbours where
    n: "get_neighborhood ce s = Some neighbours" and sub: "set neighbours \<subseteq> set ns"
    by blast
  have c1: "(if d1 = 1 then prev (node_of st s) else nxt (node_of st s)) \<in> set ns" for d1 :: int
    using ready s unfolding search_ready_def by simp
  show ?thesis
    unfolding search_cross_exchanges_from_def
  proof (rule for_each_total, rule for_each_total)
    fix d1 d2 :: int and cm0 cm :: "cross_exchange list"
    have "for_each (\<lambda>c2 cm. search_from_neighbour ce st s d1 d2
              (if d1 = 1 then prev (node_of st s) else nxt (node_of st s)) c2 cm)
            neighbours cm \<noteq> None"
    proof (rule for_each_total)
      fix c2 cm'
      assume "c2 \<in> set neighbours"
      with sub have "c2 \<in> set ns" by blast
      from search_from_neighbour_total [OF ready s c1 this]
      show "search_from_neighbour ce st s d1 d2
              (if d1 = 1 then prev (node_of st s) else nxt (node_of st s)) c2 cm' \<noteq> None" .
    qed
    then show "do {
           let route1_segment_connection_start =
                 (if d1 = 1 then prev (node_of st s) else nxt (node_of st s));
           neighbours \<leftarrow> get_neighborhood ce s;
           for_each (\<lambda>route2_segment_connection_start candidate_moves.
               search_from_neighbour ce st s d1 d2
                 route1_segment_connection_start route2_segment_connection_start
                 candidate_moves)
             neighbours cm
         } \<noteq> None"
      by (simp add: n Let_def)
  qed
qed

lemma for_each_concat_total:
  "list_all2 (\<lambda>x ys. f x = Some ys) xs yss \<Longrightarrow>
     for_each (\<lambda>x acc. do { ys \<leftarrow> f x; Some (acc @ ys) }) xs acc0 = Some (acc0 @ concat yss)"
  by (induction xs yss arbitrary: acc0 rule: list_all2_induct) simp_all

lemma X_search_ready: "search_ready X_ce X_store [0, 1, 2, 3, 4, 5]"
  by code_simp

subsection \<open>The moves of a returned result\<close>

lemma emitted_move_feasible:
  assumes "search_cross_exchanges_from ce st s dirs1 dirs2 = Some moves"
      and "m \<in> set moves"
      and "links_in_route st"
  shows "\<exists>d1 \<in> set dirs1. \<exists>d2 \<in> set dirs2. \<exists>c2 e1 e2 delta1 delta2.
           (\<exists>neighbours. get_neighborhood ce s = Some neighbours \<and> c2 \<in> set neighbours)
           \<and> e1 = (if prepend1 d1 d2 then hd (segment1 m) else last (segment1 m))
           \<and> e2 = (if prepend2 d1 d2 then hd (segment2 m) else last (segment2 m))
           \<and> route (node_of st (hd (segment1 m))) = route (node_of st s)
           \<and> route (node_of st (hd (segment2 m))) = route (node_of st c2)
           \<and> route (node_of st c2) \<noteq> route (node_of st s)
           \<and> volume (route_of st (route (node_of st (hd (segment1 m)))))
                - total_demand st (segment1 m) + total_demand st (segment2 m) \<le> capacity ce
           \<and> volume (route_of st (route (node_of st (hd (segment2 m)))))
                - total_demand st (segment2 m) + total_demand st (segment1 m) \<le> capacity ce
           \<and> cross_improvement ce st s
                (if d1 = 1 then prev (node_of st s) else nxt (node_of st s))
                (get_neighbour st c2 d2) c2 = Some delta1
           \<and> cross_improvement ce st e1 (get_neighbour st e1 d1) e2 (get_neighbour st e2 d2)
                = Some delta2
           \<and> 0 < delta1
           \<and> improvement m = delta1 + delta2
           \<and> 0 < improvement m"
proof -
  from search_cross_exchanges_from_emits [OF assms(1,2)] obtain d1 d2 neighbours c2 where
    d: "d1 \<in> set dirs1" "d2 \<in> set dirs2"
    and n: "get_neighborhood ce s = Some neighbours" "c2 \<in> set neighbours"
    and e: "emitted ce st s d1 d2 c2 m"
    by blast
  from e obtain e1 e2 delta1 delta2 where
    r: "route (node_of st c2) \<noteq> route (node_of st s)"
    and s1: "seg_inv st (prepend1 d1 d2) d1 s (segment1 m) e1 (total_demand st (segment1 m))"
    and nd1: "\<not> is_depot (node_of st e1)"
    and s2: "seg_inv st (prepend2 d1 d2) d2 (get_neighbour st c2 d2) (segment2 m) e2
               (total_demand st (segment2 m))"
    and nd2: "\<not> is_depot (node_of st e2)"
    and f1: "is_feasible ce (volume (route_of st (route (node_of st s)))
                           - total_demand st (segment1 m) + total_demand st (segment2 m))"
    and f2: "is_feasible ce (volume (route_of st (route (node_of st c2)))
                           - total_demand st (segment2 m) + total_demand st (segment1 m))"
    and c1: "cross_improvement ce st s
               (if d1 = 1 then prev (node_of st s) else nxt (node_of st s))
               (get_neighbour st c2 d2) c2 = Some delta1"
    and c2: "cross_improvement ce st e1 (get_neighbour st e1 d1) e2 (get_neighbour st e2 d2)
               = Some delta2"
    and imp: "0 < delta1" "improvement m = delta1 + delta2" "0 < improvement m"
    unfolding emitted_def by blast
  from seg_inv_nodes [OF s1 nd1] have h1: "hd (segment1 m) \<in> set (segment1 m)" by simp
  from seg_inv_nodes [OF s2 nd2] have h2: "hd (segment2 m) \<in> set (segment2 m)" by simp
  have r1: "route (node_of st (hd (segment1 m))) = route (node_of st s)"
    by (rule seg_inv_route [OF assms(3) s1 h1])
  have r2: "route (node_of st (hd (segment2 m))) = route (node_of st c2)"
    using seg_inv_route [OF assms(3) s2 h2] get_neighbour_route [OF assms(3), of c2 d2]
    by simp
  have e1: "e1 = (if prepend1 d1 d2 then hd (segment1 m) else last (segment1 m))"
    using seg_inv_end [OF s1] by simp
  have e2: "e2 = (if prepend2 d1 d2 then hd (segment2 m) else last (segment2 m))"
    using seg_inv_end [OF s2] by simp
  from f1 f2 have
    "volume (route_of st (route (node_of st (hd (segment1 m)))))
       - total_demand st (segment1 m) + total_demand st (segment2 m) \<le> capacity ce"
    "volume (route_of st (route (node_of st (hd (segment2 m)))))
       - total_demand st (segment2 m) + total_demand st (segment1 m) \<le> capacity ce"
    unfolding r1 r2 is_feasible_def by simp_all
  with d n e1 e2 r r1 r2 c1 c2 imp show ?thesis by blast
qed

lemma emitted_move_segments:
  assumes "search_cross_exchanges_from ce st s dirs1 dirs2 = Some moves"
      and "m \<in> set moves"
      and "links_in_route st"
  shows "segment1 m \<noteq> [] \<and> segment2 m \<noteq> []
         \<and> (\<forall>n \<in> set (segment1 m).
               \<not> is_depot (node_of st n) \<and> route (node_of st n) = route (node_of st s))
         \<and> (\<exists>r2. r2 \<noteq> route (node_of st s)
               \<and> (\<forall>n \<in> set (segment2 m).
                     \<not> is_depot (node_of st n) \<and> route (node_of st n) = r2))"
proof -
  from search_cross_exchanges_from_emits [OF assms(1,2)] obtain d1 d2 c2 where
    e: "emitted ce st s d1 d2 c2 m"
    by blast
  from e obtain e1 e2 where
    r: "route (node_of st c2) \<noteq> route (node_of st s)"
    and s1: "seg_inv st (prepend1 d1 d2) d1 s (segment1 m) e1 (total_demand st (segment1 m))"
    and nd1: "\<not> is_depot (node_of st e1)"
    and s2: "seg_inv st (prepend2 d1 d2) d2 (get_neighbour st c2 d2) (segment2 m) e2
               (total_demand st (segment2 m))"
    and nd2: "\<not> is_depot (node_of st e2)"
    unfolding emitted_def by blast
  have "route (node_of st n) = route (node_of st c2)" if "n \<in> set (segment2 m)" for n
    using seg_inv_route [OF assms(3) s2 that] get_neighbour_route [OF assms(3), of c2 d2]
    by simp
  with seg_inv_nodes [OF s1 nd1] seg_inv_nodes [OF s2 nd2] seg_inv_route [OF assms(3) s1] r
  show ?thesis by blast
qed

section \<open>The claims\<close>



text \<open>
  C6: updating the insertion caches for a node \<open>n\<close> and an anchor \<open>a\<close> stores in
  \<open>insertion_costs[(n, a)]\<close> the smaller of the insert-before cost
  \<open>d(n, a.prev) + d(n, a) - d(a.prev, a)\<close> and the insert-after cost
  \<open>d(n, a.next) + d(n, a) - d(a, a.next)\<close>, and in \<open>insertion_after[(n, a)]\<close> the
  node \<open>a.prev\<close> when before wins or ties, and \<open>a\<close> otherwise.
\<close>

theorem update_insertion_costs_correct:
  assumes "get_distance ce st n (prev (node_of st a)) = Some b1"
      and "get_distance ce st n a = Some b2"
      and "get_distance ce st (prev (node_of st a)) a = Some b3"
      and "get_distance ce st n (nxt (node_of st a)) = Some a1"
      and "get_distance ce st a (nxt (node_of st a)) = Some a3"
  shows "\<exists>ce'. update_insertion_costs ce st n a = Some ce'
           \<and> insertion_costs ce' (n, a) = Some (min (b1 + b2 - b3) (a1 + b2 - a3))
           \<and> insertion_after ce' (n, a)
               = Some (if b1 + b2 - b3 \<le> a1 + b2 - a3 then prev (node_of st a) else a)"
  using assms by (simp add: update_insertion_costs_def Let_def min_def)

text \<open>
  C6 on scenario S2, inserting n2 next to n1: before costs 2 + 1 - 1 = 2 and after
  costs 0 + 1 - 1 = 0, so after wins; inserting n1 next to n2: before costs
  0 + 1 - 1 = 0 and after costs 1 + 1 - 2 = 0, a tie that goes to before.
\<close>

theorem update_insertion_costs_S2:
  "get_distance S2_ce S2_store 1 (prev (node_of S2_store 2)) = Some 0
   \<and> get_distance S2_ce S2_store 1 2 = Some 1
   \<and> get_distance S2_ce S2_store (prev (node_of S2_store 2)) 2 = Some 1
   \<and> get_distance S2_ce S2_store 1 (nxt (node_of S2_store 2)) = Some 1
   \<and> get_distance S2_ce S2_store 2 (nxt (node_of S2_store 2)) = Some 2
   \<and> (\<exists>ce'. update_insertion_costs S2_ce S2_store 1 2 = Some ce'
          \<and> insertion_costs ce' (1, 2) = Some 0 \<and> insertion_after ce' (1, 2) = Some 1)
   \<and> (\<exists>ce'. update_insertion_costs S2_ce S2_store 2 1 = Some ce'
          \<and> insertion_costs ce' (2, 1) = Some 0 \<and> insertion_after ce' (2, 1) = Some 1)"
proof -
  have h: "get_distance S2_ce S2_store 1 (prev (node_of S2_store 2)) = Some 0"
          "get_distance S2_ce S2_store 1 2 = Some 1"
          "get_distance S2_ce S2_store (prev (node_of S2_store 2)) 2 = Some 1"
          "get_distance S2_ce S2_store 1 (nxt (node_of S2_store 2)) = Some 1"
          "get_distance S2_ce S2_store 2 (nxt (node_of S2_store 2)) = Some 2"
    by code_simp+
  have k: "get_distance S2_ce S2_store 2 (prev (node_of S2_store 1)) = Some 2"
          "get_distance S2_ce S2_store 2 1 = Some 1"
          "get_distance S2_ce S2_store (prev (node_of S2_store 1)) 1 = Some 1"
          "get_distance S2_ce S2_store 2 (nxt (node_of S2_store 1)) = Some 0"
          "get_distance S2_ce S2_store 1 (nxt (node_of S2_store 1)) = Some 1"
    by code_simp+
  have p: "prev (node_of S2_store 2) = 1" "prev (node_of S2_store 1) = 0"
    by (simp_all add: S2_store_def S2_node_def)
  from update_insertion_costs_correct [OF h] update_insertion_costs_correct [OF k] h
  show ?thesis
    by (simp add: p)
qed

text \<open>
  C7: \<open>update_ejection_costs(n)\<close> sets \<open>ejection_costs[n]\<close> to
  \<open>d(n, n.prev) + d(n, n.next) - d(n.prev, n.next)\<close>, with \<open>d\<close> the distance oracle.
\<close>

theorem update_ejection_costs_correct:
  assumes "get_distance ce st n (prev (node_of st n)) = Some a"
      and "get_distance ce st n (nxt (node_of st n)) = Some b"
      and "get_distance ce st (prev (node_of st n)) (nxt (node_of st n)) = Some c"
  shows "\<exists>ce'. update_ejection_costs ce st n = Some ce'
           \<and> ejection_costs ce' n = Some (a + b - c)"
  using assms by (simp add: update_ejection_costs_def)

text \<open>
  Scenario S2 of C7: for the route depot(0,0) \<rightarrow> n1(1,0) \<rightarrow> n2(2,0) \<rightarrow> depot, with the
  evaluator as constructed (penalization disabled, distances the rounded Euclidean
  ones), the ejection cost of n1 is 1 + 1 - 2 = 0.
\<close>

theorem update_ejection_costs_S2:
  "cost_evaluator_init S2_store [0, 1, 2] 10 = Some S2_ce
   \<and> \<not> penalization_enabled S2_ce
   \<and> get_distance S2_ce S2_store 1 (prev (node_of S2_store 1)) = Some 1
   \<and> get_distance S2_ce S2_store 1 (nxt (node_of S2_store 1)) = Some 1
   \<and> get_distance S2_ce S2_store (prev (node_of S2_store 1)) (nxt (node_of S2_store 1)) = Some 2
   \<and> (\<exists>ce'. update_ejection_costs S2_ce S2_store 1 = Some ce' \<and> ejection_costs ce' 1 = Some 0)"
proof -
  have a: "get_distance S2_ce S2_store 1 (prev (node_of S2_store 1)) = Some 1" by code_simp
  have b: "get_distance S2_ce S2_store 1 (nxt (node_of S2_store 1)) = Some 1" by code_simp
  have c: "get_distance S2_ce S2_store (prev (node_of S2_store 1)) (nxt (node_of S2_store 1))
           = Some 2"
    by code_simp
  have d: "\<not> penalization_enabled S2_ce" by (simp add: S2_ce_def)
  from update_ejection_costs_correct [OF a b c] S2_init a b c d show ?thesis by simp
qed

text \<open>
  C3: at construction and after every sequence of operations of the evaluator, for
  all ids \<open>i\<close> and \<open>j\<close> of its nodes, \<open>penalized_costs[i][j]\<close> equals
  \<open>penalized_costs[j][i]\<close> and is not below \<open>costs[i][j]\<close>.
\<close>

theorem penalized_costs_symmetric_and_above:
  assumes "cost_evaluator_init st ns cap = Some ce0"
      and "run ce0 calls = Some ce"
      and "i \<in> (\<lambda>n. node_id (node_of st n)) ` set ns"
      and "j \<in> (\<lambda>n. node_id (node_of st n)) ` set ns"
  shows "\<exists>c p. lookup2 (costs ce) i j = Some c
             \<and> lookup2 (penalized_costs ce) i j = Some p
             \<and> lookup2 (penalized_costs ce) j i = Some p
             \<and> c \<le> p"
proof -
  from lookup2_run_costs [OF assms(1,2), of i j] assms(3,4)
  obtain c where c: "lookup2 (costs ce) i j = Some c" by auto
  from run_invariant [OF assms(2) cost_evaluator_init_invariant [OF assms(1)]]
  have sym: "lookup2 (penalized_costs ce) j i = lookup2 (penalized_costs ce) i j"
    and rel: "rel_option (\<le>) (lookup2 (costs ce) i j) (lookup2 (penalized_costs ce) i j)"
    by (simp_all add: evaluator_invariant_def)
  from rel c obtain p where "lookup2 (penalized_costs ce) i j = Some p" "c \<le> p"
    by (auto simp: option_rel_Some1)
  with c sym show ?thesis by simp
qed

text \<open>
  C3 on scenario T: after a ranking round, the penalization of the worst edge
  (n1, n2) and the switch to penalized distances, the cost between n1 and n2 is 1000
  and the penalized cost is 1003 in both directions.
\<close>

theorem penalized_costs_symmetric_and_above_T:
  "cost_evaluator_init T_store [0, 1, 2] 10 = Some T_ce
   \<and> run T_ce [(T_store, Determine_edge_badness [0]), (T_store, Get_and_penalize_worst_edge),
               (T_store, Enable_penalization)] = Some (enable_penalization T_ce2 T_store)
   \<and> (\<exists>c p. lookup2 (costs (enable_penalization T_ce2 T_store)) 1 2 = Some c
           \<and> lookup2 (penalized_costs (enable_penalization T_ce2 T_store)) 1 2 = Some p
           \<and> lookup2 (penalized_costs (enable_penalization T_ce2 T_store)) 2 1 = Some p
           \<and> c \<le> p)
   \<and> lookup2 (costs (enable_penalization T_ce2 T_store)) 1 2 = Some 1000
   \<and> lookup2 (penalized_costs (enable_penalization T_ce2 T_store)) 1 2 = Some 1003
   \<and> lookup2 (penalized_costs (enable_penalization T_ce2 T_store)) 2 1 = Some 1003"
proof -
  have "lookup2 (costs (enable_penalization T_ce2 T_store)) 1 2 = Some 1000"
       "lookup2 (penalized_costs (enable_penalization T_ce2 T_store)) 1 2 = Some 1003"
       "lookup2 (penalized_costs (enable_penalization T_ce2 T_store)) 2 1 = Some 1003"
    by code_simp+
  with penalized_costs_symmetric_and_above [OF T_init T_run T_ids] T_init T_run
  show ?thesis by blast
qed

text \<open>
  C8: after \<open>enable_penalization()\<close> or \<open>disable_penalization()\<close>, called on an
  evaluator reached from its construction, the dirty list
  \<open>_nodes_to_update_for_relocation_chain\<close> holds exactly the non-depot nodes of the
  evaluator's node list, each once.
\<close>

theorem penalization_switch_dirty_nodes:
  assumes "cost_evaluator_init st0 ns cap = Some ce0"
      and "run ce0 calls = Some ce"
      and "\<forall>n \<in> set ns. is_depot (node_of st n) = is_depot (node_of st0 n)"
  shows "set (nodes_to_update_for_relocation_chain (enable_penalization ce st))
           = {n \<in> set (nodes ce). \<not> is_depot (node_of st n)}
         \<and> distinct (nodes_to_update_for_relocation_chain (enable_penalization ce st))
         \<and> set (nodes_to_update_for_relocation_chain (disable_penalization ce st))
           = {n \<in> set (nodes ce). \<not> is_depot (node_of st n)}
         \<and> distinct (nodes_to_update_for_relocation_chain (disable_penalization ce st))"
proof -
  from cost_evaluator_init_fields [OF assms(1)] obtain ce1 inb where
    n0: "nodes ce0 = ns" and nb: "compute_neighborhood ce1 st0 ns = Some (neighborhood ce0, inb)"
    by blast
  from run_fixed_part [OF assms(2)] n0
  have same: "nodes ce = ns" "neighborhood ce = neighborhood ce0"
    by (simp_all add: fixed_part_def)
  from compute_neighborhood_keys [OF nb]
  have keys: "set (map fst (neighborhood ce0)) = {n \<in> set ns. \<not> is_depot (node_of st0 n)}"
    and dist: "distinct (map fst (neighborhood ce0))"
    by simp_all
  from keys assms(3)
  have "set (filter (\<lambda>n. \<not> is_depot (node_of st n)) (map fst (neighborhood ce0)))
          = {n \<in> set ns. \<not> is_depot (node_of st n)}"
    by auto
  with dist show ?thesis
    by (simp add: enable_penalization_def disable_penalization_def same)
qed

text \<open>
  C8 on scenario T: after the penalization of the edge (n1, n2) the dirty list is
  n1, n2, n1, n2; \<open>enable_penalization\<close> and \<open>disable_penalization\<close> leave it n1, n2.
\<close>

theorem penalization_switch_dirty_nodes_T:
  "cost_evaluator_init T_store [0, 1, 2] 10 = Some T_ce
   \<and> run T_ce [(T_store, Determine_edge_badness [0]), (T_store, Get_and_penalize_worst_edge)]
       = Some T_ce2
   \<and> nodes_to_update_for_relocation_chain T_ce2 = [1, 2, 1, 2]
   \<and> nodes_to_update_for_relocation_chain (enable_penalization T_ce2 T_store) = [1, 2]
   \<and> nodes_to_update_for_relocation_chain (disable_penalization T_ce2 T_store) = [1, 2]
   \<and> set (nodes_to_update_for_relocation_chain (enable_penalization T_ce2 T_store))
       = {n \<in> set (nodes T_ce2). \<not> is_depot (node_of T_store n)}
   \<and> distinct (nodes_to_update_for_relocation_chain (enable_penalization T_ce2 T_store))
   \<and> set (nodes_to_update_for_relocation_chain (disable_penalization T_ce2 T_store))
       = {n \<in> set (nodes T_ce2). \<not> is_depot (node_of T_store n)}
   \<and> distinct (nodes_to_update_for_relocation_chain (disable_penalization T_ce2 T_store))"
proof -
  have "nodes_to_update_for_relocation_chain T_ce2 = [1, 2, 1, 2]"
       "nodes_to_update_for_relocation_chain (enable_penalization T_ce2 T_store) = [1, 2]"
       "nodes_to_update_for_relocation_chain (disable_penalization T_ce2 T_store) = [1, 2]"
    by code_simp+
  moreover have "\<forall>n \<in> set [0, 1, 2]. is_depot (node_of T_store n) = is_depot (node_of T_store n)"
    by simp
  from penalization_switch_dirty_nodes [OF T_init T_run_penalize this]
  have "set (nodes_to_update_for_relocation_chain (enable_penalization T_ce2 T_store))
          = {n \<in> set (nodes T_ce2). \<not> is_depot (node_of T_store n)}
        \<and> distinct (nodes_to_update_for_relocation_chain (enable_penalization T_ce2 T_store))
        \<and> set (nodes_to_update_for_relocation_chain (disable_penalization T_ce2 T_store))
          = {n \<in> set (nodes T_ce2). \<not> is_depot (node_of T_store n)}
        \<and> distinct (nodes_to_update_for_relocation_chain (disable_penalization T_ce2 T_store))" .
  ultimately show ?thesis using T_init T_run_penalize by blast
qed



text \<open>
  C5: popping the ranking that \<open>determine_edge_badness\<close> has built until it is empty
  yields its edges in non-increasing order of \<open>value\<close>, and the first pop returns an
  edge of maximum value.
\<close>

theorem ranking_pops_by_value:
  assumes "determine_edge_badness ce st routes = Some ce'"
  shows "\<exists>ranking es. edge_ranking ce' = Some ranking
           \<and> pop_n (length ranking) ranking = Some es
           \<and> mset es = mset ranking
           \<and> sorted_wrt (\<lambda>a b. edge_value b \<le> edge_value a) es
           \<and> (ranking = [] \<or>
                (\<exists>e rest. get_max_element ranking = Some (e, rest)
                   \<and> (\<forall>e' \<in> set ranking. edge_value e' \<le> edge_value e)))"
proof -
  from determine_edge_badness_edges [OF assms] obtain ess where
    r: "edge_ranking ce' = Some (MaxHeapWithUpdate (concat ess))"
    by blast
  let ?ranking = "MaxHeapWithUpdate (concat ess)"
  from MaxHeapWithUpdate_heap [of "concat ess"]
  have h: "heap_from (\<lambda>e. - edge_value e) 0 ?ranking" by simp
  from pop_n_sorted [OF h refl] obtain es where
    "pop_n (length ?ranking) ?ranking = Some es" "mset es = mset ?ranking"
    "sorted_wrt (\<lambda>a b. edge_value b \<le> edge_value a) es"
    by blast
  moreover have "?ranking = [] \<or>
                (\<exists>e rest. get_max_element ?ranking = Some (e, rest)
                   \<and> (\<forall>e' \<in> set ?ranking. edge_value e' \<le> edge_value e))"
    using get_max_element_heap [OF h] by blast
  ultimately show ?thesis using r by blast
qed

text \<open>
  C5 on scenario T: the ranking built under the criterion \<open>width\<close> is popped in the
  order (n1, n2) with value 960, then the two edges of value 480.
\<close>

theorem ranking_pops_by_value_T:
  "determine_edge_badness T_ce T_store [0] = Some T_ce1
   \<and> (\<exists>ranking es. edge_ranking T_ce1 = Some ranking
         \<and> pop_n (length ranking) ranking = Some es
         \<and> mset es = mset ranking
         \<and> sorted_wrt (\<lambda>a b. edge_value b \<le> edge_value a) es
         \<and> (ranking = [] \<or>
              (\<exists>e rest. get_max_element ranking = Some (e, rest)
                 \<and> (\<forall>e' \<in> set ranking. edge_value e' \<le> edge_value e))))
   \<and> edge_ranking T_ce1 = Some T_ranking
   \<and> pop_n (length T_ranking) T_ranking
       = Some [\<lparr>first_node = 1, second_node = 2, edge_value = 960\<rparr>,
               \<lparr>first_node = 0, second_node = 1, edge_value = 480\<rparr>,
               \<lparr>first_node = 2, second_node = 0, edge_value = 480\<rparr>]"
proof -
  have e: "edge_ranking T_ce1 = Some T_ranking" by (simp add: T_ce1_def)
  have l: "length T_ranking = 3" by (simp add: T_ranking_def)
  from ranking_pops_by_value [OF T_determine_edge_badness] T_determine_edge_badness e
    T_pop_all
  show ?thesis unfolding l by blast
qed

text \<open>
  C1: for a non-depot seed \<open>s\<close> of a solution that is ready for the search and whose
  links respect the routes, \<open>search_cross_exchanges_from\<close> returns, and every move it
  emits comes from directions \<open>d1\<close>, \<open>d2\<close> and a neighbour \<open>c2\<close> of the seed in
  another route such that (1) the load of the seed's route after the swap, its volume
  minus the demands of segment 1 plus the demands of segment 2, is at most the
  capacity, (2) so is the load of the other route, and (3) the stored improvement is
  the first-cross improvement plus the second-cross improvement, with the first-cross
  improvement and the sum both positive.
\<close>

theorem emitted_moves_feasible_and_improving:
  assumes "search_ready ce st ns"
      and "links_in_route st"
      and "s \<in> set ns"
      and "\<not> is_depot (node_of st s)"
  shows "\<exists>moves. search_cross_exchanges_from ce st s dirs1 dirs2 = Some moves
         \<and> (\<forall>m \<in> set moves.
             \<exists>d1 \<in> set dirs1. \<exists>d2 \<in> set dirs2. \<exists>c2 e1 e2 delta1 delta2.
               (\<exists>neighbours. get_neighborhood ce s = Some neighbours \<and> c2 \<in> set neighbours)
               \<and> e1 = (if prepend1 d1 d2 then hd (segment1 m) else last (segment1 m))
               \<and> e2 = (if prepend2 d1 d2 then hd (segment2 m) else last (segment2 m))
               \<and> route (node_of st (hd (segment1 m))) = route (node_of st s)
               \<and> route (node_of st (hd (segment2 m))) = route (node_of st c2)
               \<and> route (node_of st c2) \<noteq> route (node_of st s)
               \<and> volume (route_of st (route (node_of st (hd (segment1 m)))))
                    - total_demand st (segment1 m) + total_demand st (segment2 m) \<le> capacity ce
               \<and> volume (route_of st (route (node_of st (hd (segment2 m)))))
                    - total_demand st (segment2 m) + total_demand st (segment1 m) \<le> capacity ce
               \<and> cross_improvement ce st s
                    (if d1 = 1 then prev (node_of st s) else nxt (node_of st s))
                    (get_neighbour st c2 d2) c2 = Some delta1
               \<and> cross_improvement ce st e1 (get_neighbour st e1 d1) e2 (get_neighbour st e2 d2)
                    = Some delta2
               \<and> 0 < delta1
               \<and> improvement m = delta1 + delta2
               \<and> 0 < improvement m)"
proof -
  from search_cross_exchanges_from_total [OF assms(1,3,4), of dirs1 dirs2] obtain moves where
    run: "search_cross_exchanges_from ce st s dirs1 dirs2 = Some moves"
    by blast
  with emitted_move_feasible [OF run _ assms(2)] show ?thesis by blast
qed

text \<open>
  C1 on scenario X with the seed a: the one move swaps [a] and [x]; route 0 then
  carries 8 - 4 + 3 = 7 and route 1 carries 6 - 3 + 4 = 7, both at most 10, and the
  improvement is 15 + 0.
\<close>

theorem emitted_moves_feasible_and_improving_X:
  "search_ready X_ce X_store [0, 1, 2, 3, 4, 5]
   \<and> links_in_route X_store
   \<and> \<not> is_depot (node_of X_store 1)
   \<and> search_cross_exchanges_from X_ce X_store 1 [0, 1] [0, 1]
     = Some [\<lparr>segment1 = [1], segment2 = [4], segment1_insert_after = 5,
              segment2_insert_after = 0, improvement = 15, start_node = 1\<rparr>]
   \<and> (\<exists>d1 \<in> set [0, 1]. \<exists>d2 \<in> set [0, 1]. \<exists>c2 e1 e2 delta1 delta2.
           (\<exists>neighbours. get_neighborhood X_ce 1 = Some neighbours \<and> c2 \<in> set neighbours)
           \<and> e1 = (if prepend1 d1 d2 then hd ([1]) else last ([1]))
           \<and> e2 = (if prepend2 d1 d2 then hd ([4]) else last ([4]))
           \<and> route (node_of X_store (hd ([1]))) = route (node_of X_store 1)
           \<and> route (node_of X_store (hd ([4]))) = route (node_of X_store c2)
           \<and> route (node_of X_store c2) \<noteq> route (node_of X_store 1)
           \<and> volume (route_of X_store (route (node_of X_store (hd ([1])))))
                - total_demand X_store ([1]) + total_demand X_store ([4]) \<le> capacity X_ce
           \<and> volume (route_of X_store (route (node_of X_store (hd ([4])))))
                - total_demand X_store ([4]) + total_demand X_store ([1]) \<le> capacity X_ce
           \<and> cross_improvement X_ce X_store 1
                (if d1 = 1 then prev (node_of X_store 1) else nxt (node_of X_store 1))
                (get_neighbour X_store c2 d2) c2 = Some delta1
           \<and> cross_improvement X_ce X_store e1 (get_neighbour X_store e1 d1) e2 (get_neighbour X_store e2 d2)
                = Some delta2
           \<and> 0 < delta1
           \<and> (15::int) = delta1 + delta2
           \<and> (0::int) < 15)
   \<and> volume (route_of X_store (route (node_of X_store 1)))
        - total_demand X_store [1] + total_demand X_store [4] = 7
   \<and> volume (route_of X_store (route (node_of X_store 4)))
        - total_demand X_store [4] + total_demand X_store [1] = 7
   \<and> capacity X_ce = 10
   \<and> cross_improvement X_ce X_store 1 0 4 5 = Some 15
   \<and> cross_improvement X_ce X_store 1 0 4 3 = Some 0"
proof -
  have n: "volume (route_of X_store (route (node_of X_store 1)))
             - total_demand X_store [1] + total_demand X_store [4] = 7"
          "volume (route_of X_store (route (node_of X_store 4)))
             - total_demand X_store [4] + total_demand X_store [1] = 7"
          "capacity X_ce = 10"
          "cross_improvement X_ce X_store 1 0 4 5 = Some 15"
          "cross_improvement X_ce X_store 1 0 4 3 = Some 0"
    by code_simp+
  have nd: "\<not> is_depot (node_of X_store 1)" by code_simp
  have s: "(1::nat) \<in> set [0, 1, 2, 3, 4, 5]" by simp
  from emitted_moves_feasible_and_improving
         [OF X_search_ready X_links_in_route s nd, of "[0, 1]" "[0, 1]"]
  obtain moves where
    run: "search_cross_exchanges_from X_ce X_store 1 [0, 1] [0, 1] = Some moves"
    and all: "\<forall>m \<in> set moves.
      \<exists>d1 \<in> set [0, 1]. \<exists>d2 \<in> set [0, 1]. \<exists>c2 e1 e2 delta1 delta2.
                 (\<exists>neighbours. get_neighborhood X_ce 1 = Some neighbours \<and> c2 \<in> set neighbours)
                 \<and> e1 = (if prepend1 d1 d2 then hd (segment1 m) else last (segment1 m))
                 \<and> e2 = (if prepend2 d1 d2 then hd (segment2 m) else last (segment2 m))
                 \<and> route (node_of X_store (hd (segment1 m))) = route (node_of X_store 1)
                 \<and> route (node_of X_store (hd (segment2 m))) = route (node_of X_store c2)
                 \<and> route (node_of X_store c2) \<noteq> route (node_of X_store 1)
                 \<and> volume (route_of X_store (route (node_of X_store (hd (segment1 m)))))
                      - total_demand X_store (segment1 m) + total_demand X_store (segment2 m) \<le> capacity X_ce
                 \<and> volume (route_of X_store (route (node_of X_store (hd (segment2 m)))))
                      - total_demand X_store (segment2 m) + total_demand X_store (segment1 m) \<le> capacity X_ce
                 \<and> cross_improvement X_ce X_store 1
                      (if d1 = 1 then prev (node_of X_store 1) else nxt (node_of X_store 1))
                      (get_neighbour X_store c2 d2) c2 = Some delta1
                 \<and> cross_improvement X_ce X_store e1 (get_neighbour X_store e1 d1) e2 (get_neighbour X_store e2 d2)
                      = Some delta2
                 \<and> 0 < delta1
                 \<and> improvement m = delta1 + delta2
                 \<and> 0 < improvement m"
    by blast
  from run have moves: "moves = [\<lparr>segment1 = [1], segment2 = [4], segment1_insert_after = 5,
              segment2_insert_after = 0, improvement = 15, start_node = 1\<rparr>]"
    by (simp only: X_search_a option.inject)
  from all have "\<exists>d1 \<in> set [0, 1]. \<exists>d2 \<in> set [0, 1]. \<exists>c2 e1 e2 delta1 delta2.
           (\<exists>neighbours. get_neighborhood X_ce 1 = Some neighbours \<and> c2 \<in> set neighbours)
           \<and> e1 = (if prepend1 d1 d2 then hd ([1]) else last ([1]))
           \<and> e2 = (if prepend2 d1 d2 then hd ([4]) else last ([4]))
           \<and> route (node_of X_store (hd ([1]))) = route (node_of X_store 1)
           \<and> route (node_of X_store (hd ([4]))) = route (node_of X_store c2)
           \<and> route (node_of X_store c2) \<noteq> route (node_of X_store 1)
           \<and> volume (route_of X_store (route (node_of X_store (hd ([1])))))
                - total_demand X_store ([1]) + total_demand X_store ([4]) \<le> capacity X_ce
           \<and> volume (route_of X_store (route (node_of X_store (hd ([4])))))
                - total_demand X_store ([4]) + total_demand X_store ([1]) \<le> capacity X_ce
           \<and> cross_improvement X_ce X_store 1
                (if d1 = 1 then prev (node_of X_store 1) else nxt (node_of X_store 1))
                (get_neighbour X_store c2 d2) c2 = Some delta1
           \<and> cross_improvement X_ce X_store e1 (get_neighbour X_store e1 d1) e2 (get_neighbour X_store e2 d2)
                = Some delta2
           \<and> 0 < delta1
           \<and> (15::int) = delta1 + delta2
           \<and> (0::int) < 15"
    unfolding moves by (simp only: list.set ball_simps cross_exchange.simps)
  with X_search_ready X_search_a X_links_in_route nd n show ?thesis by blast
qed

text \<open>
  C9: \<open>search_cross_exchanges\<close> returns exactly when the search from every seed
  returns, and what it returns is the moves of the per-seed searches, taken together,
  in non-increasing order of \<open>improvement\<close>.
\<close>

theorem search_cross_exchanges_sorted:
  "(search_cross_exchanges ce st seeds = None
      \<longleftrightarrow> (\<exists>s \<in> set seeds. search_cross_exchanges_from ce st s [0, 1] [0, 1] = None))
   \<and> (\<forall>res. search_cross_exchanges ce st seeds = Some res \<longrightarrow>
         (\<exists>per_seed.
            list_all2 (\<lambda>s ms. search_cross_exchanges_from ce st s [0, 1] [0, 1] = Some ms)
              seeds per_seed
            \<and> mset res = mset (concat per_seed)
            \<and> sorted_wrt (\<lambda>a b. improvement b \<le> improvement a) res))"
proof (intro conjI allI impI)
  let ?f = "\<lambda>s. search_cross_exchanges_from ce st s [0, 1] [0, 1]"
  let ?loop = "for_each (\<lambda>start candidate_moves.
            do {
              moves \<leftarrow> ?f start;
              Some (candidate_moves @ moves)
            }) seeds []"
  show "search_cross_exchanges ce st seeds = None \<longleftrightarrow> (\<exists>s \<in> set seeds. ?f s = None)"
  proof
    assume none: "search_cross_exchanges ce st seeds = None"
    show "\<exists>s \<in> set seeds. ?f s = None"
    proof (rule ccontr)
      assume "\<not> (\<exists>s \<in> set seeds. ?f s = None)"
      then have "list_all2 (\<lambda>s ms. ?f s = Some ms) seeds (map (\<lambda>s. the (?f s)) seeds)"
        by (auto simp: list_all2_map2 intro!: list.rel_refl_strong)
      from for_each_concat_total [OF this, of "[]"] none show False
        by (simp add: search_cross_exchanges_def)
    qed
  next
    assume "\<exists>s \<in> set seeds. ?f s = None"
    then obtain s where s: "s \<in> set seeds" "?f s = None" by blast
    show "search_cross_exchanges ce st seeds = None"
    proof (cases "search_cross_exchanges ce st seeds")
      case None
      then show ?thesis .
    next
      case (Some res)
      then obtain cm where "?loop = Some cm"
        by (auto simp: search_cross_exchanges_def split: Option.bind_splits)
      from for_each_concat [OF this] obtain per_seed where
        "list_all2 (\<lambda>s ms. ?f s = Some ms) seeds per_seed"
        by auto
      with s(1) obtain ms where "?f s = Some ms"
        by (auto simp: list_all2_conv_all_nth in_set_conv_nth)
      with s(2) show ?thesis by simp
    qed
  qed
next
  fix res
  assume "search_cross_exchanges ce st seeds = Some res"
  then obtain cm where
    loop: "for_each (\<lambda>start candidate_moves.
            do {
              moves \<leftarrow> search_cross_exchanges_from ce st start [0, 1] [0, 1];
              Some (candidate_moves @ moves)
            }) seeds [] = Some cm"
    and res: "res = sort_key (\<lambda>move. - improvement move) cm"
    by (auto simp: search_cross_exchanges_def split: Option.bind_splits)
  from for_each_concat [OF loop] obtain per_seed where
    cm: "cm = concat per_seed"
    and all: "list_all2 (\<lambda>s ms. search_cross_exchanges_from ce st s [0, 1] [0, 1] = Some ms)
                seeds per_seed"
    by auto
  have "sorted (map (\<lambda>move. - improvement move) res)" unfolding res by (rule sorted_sort_key)
  then have "sorted_wrt (\<lambda>a b. improvement b \<le> improvement a) res"
    by (simp add: sorted_map)
  moreover have "mset res = mset (concat per_seed)" unfolding res cm by simp
  ultimately show "\<exists>per_seed.
            list_all2 (\<lambda>s ms. search_cross_exchanges_from ce st s [0, 1] [0, 1] = Some ms)
              seeds per_seed
            \<and> mset res = mset (concat per_seed)
            \<and> sorted_wrt (\<lambda>a b. improvement b \<le> improvement a) res"
    using all by blast
qed

text \<open>
  C9 on scenario X with the seeds a, b, x, y: the eight moves come back with the
  improvements 21, 15, 14, 8, 6, 6, 5, 4.
\<close>

theorem search_cross_exchanges_sorted_X:
  "(\<exists>res. search_cross_exchanges X_ce X_store [1, 2, 4, 5] = Some res
      \<and> map improvement res = [21, 15, 14, 8, 6, 6, 5, 4]
      \<and> (\<exists>per_seed.
           list_all2 (\<lambda>s ms. search_cross_exchanges_from X_ce X_store s [0, 1] [0, 1] = Some ms)
             [1, 2, 4, 5] per_seed
           \<and> mset res = mset (concat per_seed)
           \<and> sorted_wrt (\<lambda>a b. improvement b \<le> improvement a) res))"
proof -
  define res where "res = the (search_cross_exchanges X_ce X_store [1, 2, 4, 5])"
  have run: "search_cross_exchanges X_ce X_store [1, 2, 4, 5] = Some res"
    unfolding res_def by (simp only: X_search_all option.sel)
  have imp: "map improvement res = [21, 15, 14, 8, 6, 6, 5, 4]"
    unfolding res_def by (simp only: X_search_all option.sel list.map cross_exchange.simps)
  note sorted = search_cross_exchanges_sorted
                  [of X_ce X_store "[1, 2, 4, 5]", THEN conjunct2, THEN spec, THEN mp, OF run]
  show ?thesis
    by (rule exI [of _ res], rule conjI, rule run, rule conjI, rule imp, rule sorted)
qed

text \<open>
  C10: for a non-depot seed \<open>s\<close> of a solution that is ready for the search and whose
  links respect the routes, \<open>search_cross_exchanges_from\<close> returns, and every move it
  emits has two non-empty segments without depot nodes; the nodes of segment 1 are in
  the route of the seed and the nodes of segment 2 are in one route other than that.
\<close>

theorem emitted_segments_well_formed:
  assumes "search_ready ce st ns"
      and "links_in_route st"
      and "s \<in> set ns"
      and "\<not> is_depot (node_of st s)"
  shows "\<exists>moves. search_cross_exchanges_from ce st s dirs1 dirs2 = Some moves
         \<and> (\<forall>m \<in> set moves.
             segment1 m \<noteq> [] \<and> segment2 m \<noteq> []
             \<and> (\<forall>n \<in> set (segment1 m).
                   \<not> is_depot (node_of st n) \<and> route (node_of st n) = route (node_of st s))
             \<and> (\<exists>r2. r2 \<noteq> route (node_of st s)
                   \<and> (\<forall>n \<in> set (segment2 m).
                         \<not> is_depot (node_of st n) \<and> route (node_of st n) = r2)))"
proof -
  from search_cross_exchanges_from_total [OF assms(1,3,4), of dirs1 dirs2] obtain moves where
    run: "search_cross_exchanges_from ce st s dirs1 dirs2 = Some moves"
    by blast
  with emitted_move_segments [OF run _ assms(2)] show ?thesis by blast
qed

text \<open>
  C10 on scenario X with the seed y: the three moves exchange [y] or [x, y] of route 1
  with [b] of route 0.
\<close>

theorem emitted_segments_well_formed_X:
  "search_ready X_ce X_store [0, 1, 2, 3, 4, 5]
   \<and> links_in_route X_store
   \<and> \<not> is_depot (node_of X_store 5)
   \<and> search_cross_exchanges_from X_ce X_store 5 [0, 1] [0, 1]
     = Some [\<lparr>segment1 = [5], segment2 = [2], segment1_insert_after = 0,
              segment2_insert_after = 3, improvement = 8, start_node = 5\<rparr>,
             \<lparr>segment1 = [5], segment2 = [2], segment1_insert_after = 0,
              segment2_insert_after = 4, improvement = 4, start_node = 5\<rparr>,
             \<lparr>segment1 = [4, 5], segment2 = [2], segment1_insert_after = 0,
              segment2_insert_after = 4, improvement = 6, start_node = 5\<rparr>]
   \<and> route (node_of X_store 5) = 1
   \<and> [4, 5] \<noteq> ([] :: nref list) \<and> [2] \<noteq> ([] :: nref list)
   \<and> \<not> is_depot (node_of X_store 4) \<and> route (node_of X_store 4) = route (node_of X_store 5)
   \<and> (\<exists>r2. r2 \<noteq> route (node_of X_store 5)
         \<and> \<not> is_depot (node_of X_store 2) \<and> route (node_of X_store 2) = r2)"
proof -
  have search: "search_cross_exchanges_from X_ce X_store 5 [0, 1] [0, 1]
     = Some [\<lparr>segment1 = [5], segment2 = [2], segment1_insert_after = 0,
              segment2_insert_after = 3, improvement = 8, start_node = 5\<rparr>,
             \<lparr>segment1 = [5], segment2 = [2], segment1_insert_after = 0,
              segment2_insert_after = 4, improvement = 4, start_node = 5\<rparr>,
             \<lparr>segment1 = [4, 5], segment2 = [2], segment1_insert_after = 0,
              segment2_insert_after = 4, improvement = 6, start_node = 5\<rparr>]"
    by code_simp
  have r: "route (node_of X_store 5) = 1" by code_simp
  have nd: "\<not> is_depot (node_of X_store 5)" by code_simp
  have s: "(5::nat) \<in> set [0, 1, 2, 3, 4, 5]" by simp
  from emitted_segments_well_formed
         [OF X_search_ready X_links_in_route s nd, of "[0, 1]" "[0, 1]"]
  obtain moves where
    run: "search_cross_exchanges_from X_ce X_store 5 [0, 1] [0, 1] = Some moves"
    and all: "\<forall>m \<in> set moves.
      segment1 m \<noteq> [] \<and> segment2 m \<noteq> []
      \<and> (\<forall>n \<in> set (segment1 m).
            \<not> is_depot (node_of X_store n)
            \<and> route (node_of X_store n) = route (node_of X_store 5))
      \<and> (\<exists>r2. r2 \<noteq> route (node_of X_store 5)
            \<and> (\<forall>n \<in> set (segment2 m).
                  \<not> is_depot (node_of X_store n) \<and> route (node_of X_store n) = r2))"
    by blast
  from run have moves: "moves = [\<lparr>segment1 = [5], segment2 = [2], segment1_insert_after = 0,
              segment2_insert_after = 3, improvement = 8, start_node = 5\<rparr>,
             \<lparr>segment1 = [5], segment2 = [2], segment1_insert_after = 0,
              segment2_insert_after = 4, improvement = 4, start_node = 5\<rparr>,
             \<lparr>segment1 = [4, 5], segment2 = [2], segment1_insert_after = 0,
              segment2_insert_after = 4, improvement = 6, start_node = 5\<rparr>]"
    by (simp only: search option.inject)
  from all have "[4, 5] \<noteq> ([] :: nref list) \<and> [2] \<noteq> ([] :: nref list)
   \<and> \<not> is_depot (node_of X_store 4) \<and> route (node_of X_store 4) = route (node_of X_store 5)
   \<and> (\<exists>r2. r2 \<noteq> route (node_of X_store 5)
         \<and> \<not> is_depot (node_of X_store 2) \<and> route (node_of X_store 2) = r2)"
    unfolding moves by simp
  with X_search_ready search X_links_in_route r nd show ?thesis by blast
qed

end
